theory Spec2Isabelle
  imports Main "HOL-Library.Word" "HOL-Library.Signed_Division" "HOL-Library.Monad_Syntax"
begin

section \<open>Go strings: bytes, runes and the \<open>range\<close> loop\<close>

text \<open>
  A Go string is a sequence of bytes; \<open>len\<close> and slicing count bytes. The loop
  \<open>for i, c := range s\<close> decodes UTF-8: it yields the byte index of each encoded rune
  and the rune, and for a byte that does not start a valid encoding it yields
  \<open>U+FFFD\<close> and moves on by one byte. Bytes are \<open>char\<close> (8 bits), runes are code
  points.
\<close>

type_synonym rune = nat

definition byteVal :: "char \<Rightarrow> nat" where
  "byteVal c = of_char c"

definition RuneError :: rune where
  "RuneError = 0xFFFD"

definition inRange :: "nat \<Rightarrow> nat \<Rightarrow> char \<Rightarrow> bool" where
  "inRange lo hi c = (lo \<le> byteVal c \<and> byteVal c \<le> hi)"

definition contBits :: "char \<Rightarrow> nat" where
  "contBits c = byteVal c - 0x80"

text \<open>The rune at the front of a non-empty string and the number of bytes it takes.\<close>

fun decodeRune :: "string \<Rightarrow> rune \<times> nat" where
  "decodeRune [] = (RuneError, 0)"
| "decodeRune (b0 # s) =
     (let x0 = byteVal b0 in
      if x0 < 0x80 then (x0, 1)
      else if 0xC2 \<le> x0 \<and> x0 \<le> 0xDF then
        (case s of
           b1 # _ \<Rightarrow>
             if inRange 0x80 0xBF b1 then ((x0 - 0xC0) * 64 + contBits b1, 2)
             else (RuneError, 1)
         | _ \<Rightarrow> (RuneError, 1))
      else if 0xE0 \<le> x0 \<and> x0 \<le> 0xEF then
        (case s of
           b1 # b2 # _ \<Rightarrow>
             if inRange (if x0 = 0xE0 then 0xA0 else 0x80) (if x0 = 0xED then 0x9F else 0xBF) b1
                \<and> inRange 0x80 0xBF b2
             then ((x0 - 0xE0) * 4096 + contBits b1 * 64 + contBits b2, 3)
             else (RuneError, 1)
         | _ \<Rightarrow> (RuneError, 1))
      else if 0xF0 \<le> x0 \<and> x0 \<le> 0xF4 then
        (case s of
           b1 # b2 # b3 # _ \<Rightarrow>
             if inRange (if x0 = 0xF0 then 0x90 else 0x80) (if x0 = 0xF4 then 0x8F else 0xBF) b1
                \<and> inRange 0x80 0xBF b2 \<and> inRange 0x80 0xBF b3
             then ((x0 - 0xF0) * 262144 + contBits b1 * 4096 + contBits b2 * 64 + contBits b3, 4)
             else (RuneError, 1)
         | _ \<Rightarrow> (RuneError, 1))
      else (RuneError, 1))"

definition runeWidth :: "string \<Rightarrow> nat" where
  "runeWidth s = snd (decodeRune s)"

text \<open>\<open>for i, c := range s\<close>: the pairs (byte index, rune), in order.\<close>

function goRangeFrom :: "nat \<Rightarrow> string \<Rightarrow> (nat \<times> rune) list" where
  "goRangeFrom i [] = []"
| "goRangeFrom i (b # s) =
     (i, fst (decodeRune (b # s)))
       # goRangeFrom (i + runeWidth (b # s)) (drop (runeWidth (b # s)) (b # s))"
  by pat_completeness auto
termination
  by (relation "measure (\<lambda>(i, s). length s)")
     (auto simp: runeWidth_def Let_def split: list.splits)

definition goRange :: "string \<Rightarrow> (nat \<times> rune) list" where
  "goRange s = goRangeFrom 0 s"

section \<open>Line and column of a byte offset\<close>

text \<open>
  \<open>ComputeLineAndColumn\<close>: one pass over the runes of the text before the offset. The
  loop state is the previous rune, the line count and the start of the last line; the
  result is (lineCount, columnCount, lastLineStart).
\<close>

definition lineColStep :: "rune \<times> int \<times> int \<Rightarrow> nat \<times> rune \<Rightarrow> rune \<times> int \<times> int" where
  "lineColStep st ic =
     (case st of (prevCodePoint, lineCount, lastLineStart) \<Rightarrow>
      case ic of (i, codePoint) \<Rightarrow>
        if codePoint = 0x0A then
          (codePoint, (if prevCodePoint \<noteq> 0x0D then lineCount + 1 else lineCount), int i + 1)
        else if codePoint = 0x0D \<or> codePoint = 0x2028 \<or> codePoint = 0x2029 then
          (codePoint, lineCount, int i + 1)
        else (codePoint, lineCount, lastLineStart))"

definition ComputeLineAndColumn :: "string \<Rightarrow> int \<times> int \<times> int" where
  "ComputeLineAndColumn text =
     (case foldl lineColStep (0, 0, 0) (goRange text) of
        (prevCodePoint, lineCount, lastLineStart) \<Rightarrow>
          (lineCount, int (length text) - lastLineStart, lastLineStart))"


section \<open>Runtime failures, slices and formatting\<close>

text \<open>
  A Go function that panics (slice bounds out of range, nil dereference, integer divide
  by zero) returns \<open>None\<close> in the model; every result the code returns is \<open>Some\<close>.
\<close>

definition len :: "string \<Rightarrow> int" where
  "len s = int (length s)"

text \<open>\<open>s[lo:hi]\<close>, \<open>s[lo:]\<close> and \<open>s[:hi]\<close>: Go panics unless \<open>0 \<le> lo \<le> hi \<le> len(s)\<close>.\<close>

definition slice :: "string \<Rightarrow> int \<Rightarrow> int \<Rightarrow> string option" where
  "slice s lo hi =
     (if 0 \<le> lo \<and> lo \<le> hi \<and> hi \<le> len s
      then Some (take (nat hi - nat lo) (drop (nat lo) s)) else None)"

definition sliceFrom :: "string \<Rightarrow> int \<Rightarrow> string option" where
  "sliceFrom s lo = slice s lo (len s)"

definition sliceTo :: "string \<Rightarrow> int \<Rightarrow> string option" where
  "sliceTo s hi = slice s 0 hi"

text \<open>\<open>strings.Repeat\<close> of a one-byte string; a negative count panics.\<close>

definition Repeat :: "char \<Rightarrow> int \<Rightarrow> string option" where
  "Repeat c n = (if n < 0 then None else Some (replicate (nat n) c))"

text \<open>The verb \<open>%d\<close> of \<open>fmt.Sprintf\<close>: decimal digits, a minus sign when negative.\<close>

definition digit :: "nat \<Rightarrow> char" where
  "digit d = char_of (48 + d)"

fun showNat :: "nat \<Rightarrow> string" where
  "showNat n = (if n < 10 then [digit n] else showNat (n div 10) @ [digit (n mod 10)])"

declare showNat.simps [simp del]

definition showInt :: "int \<Rightarrow> string" where
  "showInt i = (if i < 0 then CHR ''-'' # showNat (nat (- i)) else showNat (nat i))"

section \<open>Data model\<close>

datatype LogLevel = LevelNone | LevelInfo | LevelWarning | LevelError

text \<open>The \<open>iota\<close> values of the constants; \<open>\<le>\<close> on log levels compares these.\<close>

fun levelNum :: "LogLevel \<Rightarrow> int" where
  "levelNum LevelNone = 0"
| "levelNum LevelInfo = 1"
| "levelNum LevelWarning = 2"
| "levelNum LevelError = 3"

datatype MsgKind = Error | Warning

type_synonym int32 = "32 word"

record Source =
  Index :: "32 word"
  AbsolutePath :: string
  PrettyPath :: string
  Contents :: string

text \<open>\<open>Source\<close> is a pointer in Go: \<open>None\<close> is \<open>nil\<close>. \<open>Start\<close> and \<open>Length\<close> are
  \<open>int32\<close>, read as signed with \<open>sint\<close>.\<close>

record Msg =
  Source :: "Source option"
  Start :: int32
  Length :: int32
  Text :: string
  Kind :: MsgKind

text \<open>
  Modelled from the spec: the location types \<open>ast.Loc\<close> and \<open>ast.Range\<close> of package
  \<open>ast\<close>, which the logging code imports: a byte offset, and a byte offset together
  with a length. The code here reads \<open>loc.Start\<close>, \<open>r.Loc\<close> and \<open>r.Len\<close>, stores them in
  the \<open>int32\<close> fields of \<open>Msg\<close> and builds \<open>ast.Range{loc, int32(n)}\<close>.
\<close>

record Loc =
  LocStart :: int32

record Range =
  RangeLoc :: Loc
  Len :: int32

section \<open>Source ranges\<close>

definition TextForRange :: "Source \<Rightarrow> Range \<Rightarrow> string option" where
  "TextForRange s r =
     slice (Contents s) (sint (LocStart (RangeLoc r))) (sint (LocStart (RangeLoc r) + Len r))"

text \<open>
  The loop of \<open>RangeOfString\<close>, from index \<open>i\<close>: \<open>Some n\<close> when it returns the length
  \<open>n = i + 1\<close> at a matching quote, \<open>None\<close> when it runs off the end of the text.
\<close>

function quoteLoop :: "string \<Rightarrow> char \<Rightarrow> nat \<Rightarrow> nat option" where
  "quoteLoop text quote i =
     (if i < length text then
        (let c = text ! i in
         if c = quote then Some (i + 1)
         else if c = CHR 0x5C then quoteLoop text quote (i + 1 + 1)
         else quoteLoop text quote (i + 1))
      else None)"
  by pat_completeness auto
termination
  by (relation "measure (\<lambda>(text, quote, i). length text - i)") auto

declare quoteLoop.simps [simp del]

definition RangeOfString :: "Source \<Rightarrow> Loc \<Rightarrow> Range option" where
  "RangeOfString s loc =
     (case sliceFrom (Contents s) (sint (LocStart loc)) of
        None \<Rightarrow> None
      | Some text \<Rightarrow>
          if length text = 0 then Some \<lparr>RangeLoc = loc, Len = 0\<rparr>
          else
            (let quote = text ! 0 in
             if quote = CHR 0x22 \<or> quote = CHR 0x27 then
               (case quoteLoop text quote 1 of
                  Some n \<Rightarrow> Some \<lparr>RangeLoc = loc, Len = of_nat n\<rparr>
                | None \<Rightarrow> Some \<lparr>RangeLoc = loc, Len = 0\<rparr>)
             else Some \<lparr>RangeLoc = loc, Len = 0\<rparr>))"

section \<open>Counters and the summary text\<close>

record stderrLogInfo =
  msgs :: "Msg list"
  errors :: int
  warnings :: int
  errorLimitWasHit :: bool

definition plural :: "string \<Rightarrow> int \<Rightarrow> string" where
  "plural prefix count =
     (if count = 1 then showInt count @ '' '' @ prefix
      else showInt count @ '' '' @ prefix @ ''s'')"

definition stderrLogInfoString :: "stderrLogInfo \<Rightarrow> string" where
  "stderrLogInfoString counts =
     (if errors counts = 0 then
        (if warnings counts = 0 then ''no errors''
         else plural ''warning'' (warnings counts))
      else
        (if warnings counts = 0 then plural ''error'' (errors counts)
         else plural ''warning'' (warnings counts) @ '' and '' @ plural ''error'' (errors counts)))"


section \<open>Terminal and options\<close>

record TerminalInfo =
  IsTTY :: bool
  UseColorEscapes :: bool
  Width :: int

datatype StderrColor = ColorIfTerminal | ColorNever | ColorAlways

record StderrOptions =
  IncludeSource :: bool
  ErrorLimit :: int
  Color :: StderrColor
  LogLevel :: LogLevel

definition colorReset :: string where "colorReset = CHR 0x1B # ''[0m''"
definition colorRed :: string where "colorRed = CHR 0x1B # ''[31m''"
definition colorGreen :: string where "colorGreen = CHR 0x1B # ''[32m''"
definition colorMagenta :: string where "colorMagenta = CHR 0x1B # ''[35m''"
definition colorBold :: string where "colorBold = CHR 0x1B # ''[1m''"
definition colorResetBold :: string where "colorResetBold = CHR 0x1B # ''[0;1m''"

section \<open>Tab expansion\<close>

text \<open>\<open>WriteRune\<close>: the UTF-8 encoding of a rune; a surrogate or a value above
  \<open>U+10FFFF\<close> is written as \<open>U+FFFD\<close>.\<close>

definition encodeRune :: "rune \<Rightarrow> string" where
  "encodeRune r =
     (if r < 0x80 then [char_of r]
      else if r < 0x800 then [char_of (0xC0 + r div 64), char_of (0x80 + r mod 64)]
      else if r > 0x10FFFF \<or> (0xD800 \<le> r \<and> r \<le> 0xDFFF) then [CHR 0xEF, CHR 0xBF, CHR 0xBD]
      else if r < 0x10000 then
        [char_of (0xE0 + r div 4096), char_of (0x80 + r div 64 mod 64), char_of (0x80 + r mod 64)]
      else
        [char_of (0xF0 + r div 262144), char_of (0x80 + r div 4096 mod 64),
         char_of (0x80 + r div 64 mod 64), char_of (0x80 + r mod 64)])"

text \<open>
  The body of the loop of \<open>renderTabStops\<close> for one rune \<open>c\<close>, on the builder and the
  column count. \<open>count % spacesPerTab\<close> panics when \<open>spacesPerTab\<close> is 0 and truncates
  towards zero otherwise (\<open>smod\<close>); the inner loop writes a space and increments
  \<open>count\<close> once for each \<open>i\<close> with \<open>0 \<le> i < spaces\<close>, so not at all when \<open>spaces \<le> 0\<close>.
\<close>

definition tabStep :: "int \<Rightarrow> string \<times> int \<Rightarrow> rune \<Rightarrow> (string \<times> int) option" where
  "tabStep spacesPerTab st c =
     (case st of (withoutTabs, count) \<Rightarrow>
        if c = 0x09 then
          (if spacesPerTab = 0 then None
           else
             (let spaces = spacesPerTab - count smod spacesPerTab in
              Some (withoutTabs @ replicate (nat spaces) CHR '' '', count + int (nat spaces))))
        else Some (withoutTabs @ encodeRune c, count + 1))"

fun tabLoop :: "int \<Rightarrow> rune list \<Rightarrow> string \<times> int \<Rightarrow> (string \<times> int) option" where
  "tabLoop spacesPerTab [] st = Some st"
| "tabLoop spacesPerTab (c # cs) st =
     (case tabStep spacesPerTab st c of
        None \<Rightarrow> None
      | Some st' \<Rightarrow> tabLoop spacesPerTab cs st')"

text \<open>The general loop alone, without the early return.\<close>

definition expandLoop :: "string \<Rightarrow> int \<Rightarrow> string option" where
  "expandLoop withTabs spacesPerTab =
     map_option fst (tabLoop spacesPerTab (map snd (goRange withTabs)) ([], 0))"

text \<open>\<open>strings.ContainsRune(s, '\t')\<close> looks for the byte 9, a rune below \<open>0x80\<close>.\<close>

definition renderTabStops :: "string \<Rightarrow> int \<Rightarrow> string option" where
  "renderTabStops withTabs spacesPerTab =
     (if CHR 0x09 \<notin> set withTabs then Some withTabs
      else expandLoop withTabs spacesPerTab)"

section \<open>The detail of a message with a source\<close>

record MsgDetail =
  Path :: string
  Line :: int
  Column :: int
  Kind :: string
  Message :: string
  Source :: string
  SourceBefore :: string
  SourceMarked :: string
  SourceAfter :: string
  Indent :: string
  Marker :: string

definition isLineBoundary :: "rune \<Rightarrow> bool" where
  "isLineBoundary codePoint =
     (codePoint = 0x0D \<or> codePoint = 0x0A \<or> codePoint = 0x2028 \<or> codePoint = 0x2029)"

text \<open>The loop that finds \<open>lineEnd\<close>: it stops at the first line boundary.\<close>

fun lineEndLoop :: "(nat \<times> rune) list \<Rightarrow> int \<Rightarrow> int \<Rightarrow> int" where
  "lineEndLoop [] lineStart lineEnd = lineEnd"
| "lineEndLoop ((i, codePoint) # rest) lineStart lineEnd =
     (if isLineBoundary codePoint then lineStart + int i
      else lineEndLoop rest lineStart lineEnd)"

text \<open>"Clip the marker to the bounds of the line".\<close>

definition clipMarker :: "string \<Rightarrow> int \<Rightarrow> int \<Rightarrow> int \<times> int" where
  "clipMarker lineText markerStart markerEnd =
     (let markerStart = (if markerStart > len lineText then len lineText else markerStart);
          markerEnd = (if markerEnd > len lineText then len lineText else markerEnd);
          markerEnd = (if markerEnd < markerStart then markerStart else markerEnd)
      in (markerStart, markerEnd))"

text \<open>
  "Trim the line to fit the terminal width": the body of the \<open>if\<close>, which returns the
  displayed line, the marker bounds and the indent. \<open>centerSlice\<close> is its first part,
  "Try to center the error", which computes \<open>sliceStart\<close>. \<open>/\<close> on Go's \<open>int\<close>
  truncates towards zero (\<open>sdiv\<close>).
\<close>

definition centerSlice :: "int \<Rightarrow> string \<Rightarrow> int \<Rightarrow> int \<Rightarrow> int" where
  "centerSlice width lineText markerStart markerEnd =
     (let sliceStart = (markerStart + markerEnd - width) sdiv 2;
          sliceStart = (if sliceStart > markerStart - width sdiv 5
                        then markerStart - width sdiv 5 else sliceStart);
          sliceStart = (if sliceStart < 0 then 0 else sliceStart);
          sliceStart = (if sliceStart > len lineText - width
                        then len lineText - width else sliceStart)
      in sliceStart)"

definition trimLine :: "int \<Rightarrow> string \<Rightarrow> int \<Rightarrow> int \<Rightarrow> (string \<times> int \<times> int \<times> string) option" where
  "trimLine width lineText markerStart markerEnd =
     (let sliceStart = centerSlice width lineText markerStart markerEnd;
          sliceEnd = sliceStart + width
      in do {
        slicedLine \<leftarrow> slice lineText sliceStart sliceEnd;
        let markerStart = markerStart - sliceStart;
        let markerEnd = markerEnd - sliceStart;
        let markerStart = (if markerStart < 0 then 0 else markerStart);
        let markerEnd = (if markerEnd > len slicedLine then len slicedLine else markerEnd);
        (slicedLine, markerStart) \<leftarrow>
          (if len slicedLine > 3 \<and> sliceStart > 0 then do {
             rest \<leftarrow> sliceFrom slicedLine 3;
             Some (''...'' @ rest, if markerStart < 3 then 3 else markerStart)
           } else Some (slicedLine, markerStart));
        (slicedLine, markerEnd) \<leftarrow>
          (if len slicedLine > 3 \<and> sliceEnd < len lineText then do {
             front \<leftarrow> sliceTo slicedLine (len slicedLine - 3);
             let slicedLine = front @ ''...'';
             let markerEnd = (if markerEnd > len slicedLine - 3
                              then len slicedLine - 3 else markerEnd);
             let markerEnd = (if markerEnd < markerStart then markerStart else markerEnd);
             Some (slicedLine, markerEnd)
           } else Some (slicedLine, markerEnd));
        indent \<leftarrow> Repeat CHR '' '' markerStart;
        Some (slicedLine, markerStart, markerEnd, indent)
      })"

definition kindString :: "MsgKind \<Rightarrow> string" where
  "kindString k = (if k = Warning then ''warning'' else ''error'')"

definition detailStruct :: "Msg \<Rightarrow> TerminalInfo \<Rightarrow> MsgDetail option" where
  "detailStruct msg terminalInfo =
     (case Msg.Source msg of
        None \<Rightarrow> None
      | Some source \<Rightarrow>
          (let contents = Contents source in do {
             scanned \<leftarrow> slice contents 0 (sint (Start msg));
             let (lineCount, columnCount, lineStart) = ComputeLineAndColumn scanned;
             let lineEnd = len contents;
             fromLineStart \<leftarrow> sliceFrom contents lineStart;
             let lineEnd = lineEndLoop (goRange fromLineStart) lineStart lineEnd;
             let spacesPerTab = 2;
             line \<leftarrow> slice contents lineStart lineEnd;
             lineText \<leftarrow> renderTabStops line spacesPerTab;
             linePrefix \<leftarrow> slice contents lineStart (sint (Start msg));
             indentText \<leftarrow> renderTabStops linePrefix spacesPerTab;
             indent \<leftarrow> Repeat CHR '' '' (len indentText);
             let marker = ''^'';
             let markerStart = len indent;
             let markerEnd = len indent;
             markerEnd \<leftarrow>
               (if sint (Length msg) > 0 then do {
                  marked \<leftarrow> slice contents lineStart (sint (Start msg + Length msg));
                  markedText \<leftarrow> renderTabStops marked spacesPerTab;
                  Some (len markedText)
                } else Some markerEnd);
             let (markerStart, markerEnd) = clipMarker lineText markerStart markerEnd;
             (lineText, markerStart, markerEnd, indent) \<leftarrow>
               (if Width terminalInfo > 0 \<and> len lineText > Width terminalInfo
                then trimLine (Width terminalInfo) lineText markerStart markerEnd
                else Some (lineText, markerStart, markerEnd, indent));
             marker \<leftarrow>
               (if markerEnd - markerStart > 1 then Repeat CHR ''~'' (markerEnd - markerStart)
                else Some marker);
             let kind = kindString (Msg.Kind msg);
             sourceBefore \<leftarrow> sliceTo lineText markerStart;
             sourceMarked \<leftarrow> slice lineText markerStart markerEnd;
             sourceAfter \<leftarrow> sliceFrom lineText markerEnd;
             Some \<lparr>Path = PrettyPath source,
                   Line = lineCount + 1,
                   Column = columnCount,
                   Kind = kind,
                   Message = Text msg,
                   Source = lineText,
                   SourceBefore = sourceBefore,
                   SourceMarked = sourceMarked,
                   SourceAfter = sourceAfter,
                   Indent = indent,
                   Marker = marker\<rparr>
           }))"


section \<open>Rendering a message\<close>

definition kindColorOf :: "MsgKind \<Rightarrow> string" where
  "kindColorOf k = (if k = Warning then colorMagenta else colorRed)"

definition MsgString :: "Msg \<Rightarrow> StderrOptions \<Rightarrow> TerminalInfo \<Rightarrow> string option" where
  "MsgString msg options terminalInfo =
     (let kind = kindString (Msg.Kind msg); kindColor = kindColorOf (Msg.Kind msg) in
      case Msg.Source msg of
        None \<Rightarrow>
          if UseColorEscapes terminalInfo then
            Some (colorBold @ kindColor @ kind @ '': '' @ colorResetBold @ Text msg
                  @ colorReset @ [CHR 0x0A])
          else Some (kind @ '': '' @ Text msg @ [CHR 0x0A])
      | Some source \<Rightarrow>
          if \<not> IncludeSource options then
            (if UseColorEscapes terminalInfo then
               Some (colorBold @ PrettyPath source @ '': '' @ kindColor @ kind @ '': ''
                     @ colorResetBold @ Text msg @ colorReset @ [CHR 0x0A])
             else Some (PrettyPath source @ '': '' @ kind @ '': '' @ Text msg @ [CHR 0x0A]))
          else do {
            d \<leftarrow> detailStruct msg terminalInfo;
            if UseColorEscapes terminalInfo then
              Some (colorBold @ Path d @ '':'' @ showInt (Line d) @ '':'' @ showInt (Column d)
                    @ '': '' @ kindColor @ MsgDetail.Kind d @ '': ''
                    @ colorResetBold @ Message d @ [CHR 0x0A]
                    @ colorReset @ SourceBefore d @ colorGreen @ SourceMarked d
                    @ colorReset @ SourceAfter d @ [CHR 0x0A]
                    @ colorGreen @ Indent d @ Marker d @ colorReset @ [CHR 0x0A])
            else
              Some (Path d @ '':'' @ showInt (Line d) @ '':'' @ showInt (Column d)
                    @ '': '' @ MsgDetail.Kind d @ '': '' @ Message d @ [CHR 0x0A]
                    @ MsgDetail.Source d @ [CHR 0x0A]
                    @ Indent d @ Marker d @ [CHR 0x0A])
          })"

section \<open>The interactive sink\<close>

text \<open>
  \<open>NewStderrLog\<close> starts one worker that takes the messages from the channel one at a
  time, in the order it accepts them, and returns the function that closes the channel
  and waits for the worker. The model runs the worker over the list of accepted
  messages. The standard error stream is the list of strings written, one per call of
  \<open>WriteString\<close> or \<open>Fprintf\<close>. Two things come from outside this file and are
  parameters: the result of \<open>GetTerminalInfo(os.Stderr)\<close> and the constant
  \<open>SupportsColorEscapes\<close>. The counters are Go's \<open>int\<close>; they count messages, so they
  stay far below \<open>2^63\<close> and are modelled by \<open>int\<close>.
\<close>

text \<open>The \<open>switch options.Color\<close> at the start of \<open>NewStderrLog\<close>.\<close>

definition applyColor :: "bool \<Rightarrow> StderrOptions \<Rightarrow> TerminalInfo \<Rightarrow> TerminalInfo" where
  "applyColor SupportsColorEscapes options terminalInfo =
     (case Color options of
        ColorNever \<Rightarrow> terminalInfo\<lparr>UseColorEscapes := False\<rparr>
      | ColorAlways \<Rightarrow> terminalInfo\<lparr>UseColorEscapes := SupportsColorEscapes\<rparr>
      | ColorIfTerminal \<Rightarrow> terminalInfo)"

definition limitNotice :: "stderrLogInfo \<Rightarrow> string" where
  "limitNotice result =
     stderrLogInfoString result @ '' reached (disable error limit with --error-limit=0)''
       @ [CHR 0x0A]"

text \<open>One iteration of \<open>for msg := range msgs\<close> in the worker.\<close>

definition workerStep ::
  "StderrOptions \<Rightarrow> TerminalInfo \<Rightarrow> stderrLogInfo \<times> string list \<Rightarrow> Msg
     \<Rightarrow> (stderrLogInfo \<times> string list) option" where
  "workerStep options terminalInfo st msg =
     (case st of (result, stderr) \<Rightarrow>
      let result = result\<lparr>msgs := msgs result @ [msg]\<rparr> in
      if errorLimitWasHit result then Some (result, stderr)
      else do {
        (result, stderr) \<leftarrow>
          (case Msg.Kind msg of
             Error \<Rightarrow>
               (let result = result\<lparr>errors := errors result + 1\<rparr> in
                if levelNum (LogLevel options) \<le> levelNum LevelError then do {
                  text \<leftarrow> MsgString msg options terminalInfo;
                  Some (result, stderr @ [text])
                } else Some (result, stderr))
           | Warning \<Rightarrow>
               (let result = result\<lparr>warnings := warnings result + 1\<rparr> in
                if levelNum (LogLevel options) \<le> levelNum LevelWarning then do {
                  text \<leftarrow> MsgString msg options terminalInfo;
                  Some (result, stderr @ [text])
                } else Some (result, stderr)));
        if ErrorLimit options \<noteq> 0 \<and> errors result \<ge> ErrorLimit options then
          (let result = result\<lparr>errorLimitWasHit := True\<rparr> in
           if levelNum (LogLevel options) \<le> levelNum LevelError
           then Some (result, stderr @ [limitNotice result])
           else Some (result, stderr))
        else Some (result, stderr)
      })"

fun workerLoop ::
  "StderrOptions \<Rightarrow> TerminalInfo \<Rightarrow> stderrLogInfo \<times> string list \<Rightarrow> Msg list
     \<Rightarrow> (stderrLogInfo \<times> string list) option" where
  "workerLoop options terminalInfo st [] = Some st"
| "workerLoop options terminalInfo st (msg # rest) =
     (case workerStep options terminalInfo st msg of
        None \<Rightarrow> None
      | Some st' \<Rightarrow> workerLoop options terminalInfo st' rest)"

definition emptyInfo :: stderrLogInfo where
  "emptyInfo = \<lparr>msgs = [], errors = 0, warnings = 0, errorLimitWasHit = False\<rparr>"

text \<open>The function returned by \<open>NewStderrLog\<close>, applied to what the worker sends on
  \<open>done\<close>: it may write the summary and returns the messages.\<close>

definition finalize ::
  "StderrOptions \<Rightarrow> stderrLogInfo \<times> string list \<Rightarrow> Msg list \<times> string list" where
  "finalize options st =
     (case st of (result, stderr) \<Rightarrow>
      if \<not> errorLimitWasHit result \<and> levelNum (LogLevel options) \<le> levelNum LevelInfo
         \<and> (warnings result \<noteq> 0 \<or> errors result \<noteq> 0)
      then (msgs result, stderr @ [stderrLogInfoString result @ [CHR 0x0A]])
      else (msgs result, stderr))"

text \<open>The whole life of a sink: the messages returned and everything written.\<close>

definition NewStderrLog ::
  "bool \<Rightarrow> TerminalInfo \<Rightarrow> StderrOptions \<Rightarrow> Msg list \<Rightarrow> (Msg list \<times> string list) option" where
  "NewStderrLog SupportsColorEscapes stderrInfo options sent =
     (let terminalInfo = applyColor SupportsColorEscapes options stderrInfo in
      map_option (finalize options) (workerLoop options terminalInfo (emptyInfo, []) sent))"

text \<open>The messages the four enqueue operations send.\<close>

definition AddError :: "Source option \<Rightarrow> Loc \<Rightarrow> string \<Rightarrow> Msg" where
  "AddError source loc text =
     \<lparr>Msg.Source = source, Start = LocStart loc, Length = 0, Text = text, Msg.Kind = Error\<rparr>"

definition AddWarning :: "Source option \<Rightarrow> Loc \<Rightarrow> string \<Rightarrow> Msg" where
  "AddWarning source loc text =
     \<lparr>Msg.Source = source, Start = LocStart loc, Length = 0, Text = text, Msg.Kind = Warning\<rparr>"

definition AddRangeError :: "Source option \<Rightarrow> Range \<Rightarrow> string \<Rightarrow> Msg" where
  "AddRangeError source r text =
     \<lparr>Msg.Source = source, Start = LocStart (RangeLoc r), Length = Len r, Text = text,
      Msg.Kind = Error\<rparr>"

definition AddRangeWarning :: "Source option \<Rightarrow> Range \<Rightarrow> string \<Rightarrow> Msg" where
  "AddRangeWarning source r text =
     \<lparr>Msg.Source = source, Start = LocStart (RangeLoc r), Length = Len r, Text = text,
      Msg.Kind = Warning\<rparr>"


section \<open>Notions used to state the properties\<close>

text \<open>The number a string of decimal digits stands for.\<close>

definition decimalValue :: "string \<Rightarrow> nat" where
  "decimalValue s = foldl (\<lambda>a c. 10 * a + (byteVal c - 48)) 0 s"

text \<open>How many of the messages have the given kind.\<close>

definition countKind :: "MsgKind \<Rightarrow> Msg list \<Rightarrow> int" where
  "countKind k ms = int (length (filter (\<lambda>m. Msg.Kind m = k) ms))"

text \<open>The Unicode scalar values: the code points outside the surrogate range.\<close>

definition validRune :: "rune \<Rightarrow> bool" where
  "validRune r = (r < 0xD800 \<or> (0xE000 \<le> r \<and> r \<le> 0x10FFFF))"

text \<open>The code points that UTF-8 encodes in \<open>w\<close> bytes.\<close>

definition runeOfWidth :: "rune \<Rightarrow> nat \<Rightarrow> bool" where
  "runeOfWidth r w =
     ((w = 1 \<and> r < 0x80) \<or> (w = 2 \<and> 0x80 \<le> r \<and> r < 0x800)
      \<or> (w = 3 \<and> 0x800 \<le> r \<and> r < 0x10000 \<and> \<not> (0xD800 \<le> r \<and> r \<le> 0xDFFF))
      \<or> (w = 4 \<and> 0x10000 \<le> r \<and> r \<le> 0x10FFFF))"

text \<open>The runes that \<open>range\<close> yields for a string.\<close>

definition runesOf :: "string \<Rightarrow> rune list" where
  "runesOf s = map snd (goRange s)"

text \<open>
  Valid UTF-8, as Go's \<open>utf8.ValidString\<close> decides it: at every position where a rune
  starts, the bytes are the encoding of a rune, not an invalid byte read as \<open>U+FFFD\<close>
  of width 1; the remaining \<open>width - 1\<close> bytes of the rune are skipped.
\<close>

fun ValidString :: "string \<Rightarrow> bool" where
  "ValidString [] = True"
| "ValidString (b # s) =
     (decodeRune (b # s) \<noteq> (RuneError, 1) \<and> ValidString (drop (runeWidth (b # s) - 1) s))"

declare ValidString.simps(2) [simp del]

text \<open>
  Tab expansion in the spec's words, on runes and columns: a tab advances the column to
  the next multiple of 2 and yields that many spaces, any other rune passes through and
  advances the column by 1.
\<close>

definition nextTabStop :: "nat \<Rightarrow> nat" where
  "nextTabStop col = (col div 2 + 1) * 2"

fun expandTabs :: "nat \<Rightarrow> rune list \<Rightarrow> rune list" where
  "expandTabs col [] = []"
| "expandTabs col (c # cs) =
     (if c = 0x09 then replicate (nextTabStop col - col) 0x20 @ expandTabs (nextTabStop col) cs
      else c # expandTabs (col + 1) cs)"

text \<open>\<open>s[lo:hi]\<close> where it does not panic.\<close>

definition substring :: "string \<Rightarrow> int \<Rightarrow> int \<Rightarrow> string" where
  "substring s lo hi = take (nat hi - nat lo) (drop (nat lo) s)"







text \<open>A string with the escape character, which starts every colour sequence.\<close>

definition hasEscape :: "string \<Rightarrow> bool" where
  "hasEscape s = (CHR 0x1B \<in> set s)"

text \<open>
  The quoted-string scan in the spec's words: \<open>closingQuote q cs\<close> is the offset in
  \<open>cs\<close>, the text after the opening quote \<open>q\<close>, of the first occurrence of \<open>q\<close> that
  is not skipped, where a backslash makes the scan skip the byte after it without
  testing it; \<open>quotedLength text\<close> is the length from the opening quote through that
  closing quote, and 0 when the text is empty, does not start with a quote character or
  has no closing quote.
\<close>

fun closingQuote :: "char \<Rightarrow> string \<Rightarrow> nat option" where
  "closingQuote q [] = None"
| "closingQuote q (c # cs) =
     (if c = q then Some 0
      else if c = CHR 0x5C then
        (case cs of
           [] \<Rightarrow> None
         | escaped # cs' \<Rightarrow> map_option (\<lambda>k. k + 2) (closingQuote q cs'))
      else map_option Suc (closingQuote q cs))"

definition quotedLength :: "string \<Rightarrow> nat" where
  "quotedLength text =
     (case text of
        [] \<Rightarrow> 0
      | q # rest \<Rightarrow>
          if q = CHR 0x22 \<or> q = CHR 0x27 then
            (case closingQuote q rest of Some k \<Rightarrow> k + 2 | None \<Rightarrow> 0)
          else 0)"

section \<open>Evaluating the loops\<close>

declare decodeRune.simps(2) [simp del]
declare goRangeFrom.simps(2) [simp del]

lemma decodeRune_ascii: "byteVal b < 0x80 \<Longrightarrow> decodeRune (b # s) = (byteVal b, 1)"
  by (simp add: decodeRune.simps)

lemma goRangeFrom_ascii_Cons:
  "byteVal b < 0x80 \<Longrightarrow> goRangeFrom i (b # s) = (i, byteVal b) # goRangeFrom (Suc i) s"
  by (simp add: goRangeFrom.simps runeWidth_def decodeRune_ascii)

lemmas eval_line_col =
  ComputeLineAndColumn_def goRange_def goRangeFrom_ascii_Cons byteVal_def lineColStep_def

lemmas eval_slices =
  slice_def sliceFrom_def sliceTo_def len_def Repeat_def signed_divide_int_def Let_def

lemmas eval_detail =
  detailStruct_def isLineBoundary_def renderTabStops_def clipMarker_def trimLine_def
  centerSlice_def kindString_def

section \<open>UTF-8: reading and writing runes\<close>

lemma byteVal_lt: "byteVal c < 256"
  by (simp add: byteVal_def)

lemma byteVal_char_of: "n < 256 \<Longrightarrow> byteVal (char_of n) = n"
  by (simp add: byteVal_def)

lemma char_of_byteVal: "char_of (byteVal c) = c"
  by (simp add: byteVal_def)

lemma split2: "c < 64 \<Longrightarrow> (a * 64 + c) div 64 = a \<and> (a * 64 + c) mod 64 = (c::nat)"
  by simp

lemma split3:
  fixes a c1 c2 :: nat
  assumes "c1 < 64" and "c2 < 64"
  shows "(a * 4096 + c1 * 64 + c2) div 4096 = a
     \<and> (a * 4096 + c1 * 64 + c2) div 64 mod 64 = c1
     \<and> (a * 4096 + c1 * 64 + c2) mod 64 = c2"
proof -
  let ?r = "a * 4096 + c1 * 64 + c2"
  have e: "?r = (a * 64 + c1) * 64 + c2" by simp
  have d: "?r div 64 = a * 64 + c1" and m: "?r mod 64 = c2"
    unfolding e using split2 [OF assms(2), of "a * 64 + c1"] by blast+
  have "?r div 4096 = ?r div 64 div 64"
    by (simp add: div_mult2_eq [symmetric])
  with d split2 [OF assms(1), of a] have t: "?r div 4096 = a" by simp
  from d split2 [OF assms(1), of a] have "?r div 64 mod 64 = c1" by simp
  with t m show ?thesis by blast
qed

lemma split4:
  fixes a c1 c2 c3 :: nat
  assumes "c1 < 64" and "c2 < 64" and "c3 < 64"
  shows "(a * 262144 + c1 * 4096 + c2 * 64 + c3) div 262144 = a
     \<and> (a * 262144 + c1 * 4096 + c2 * 64 + c3) div 4096 mod 64 = c1
     \<and> (a * 262144 + c1 * 4096 + c2 * 64 + c3) div 64 mod 64 = c2
     \<and> (a * 262144 + c1 * 4096 + c2 * 64 + c3) mod 64 = c3"
proof -
  let ?r = "a * 262144 + c1 * 4096 + c2 * 64 + c3"
  let ?q = "a * 4096 + c1 * 64 + c2"
  have e: "?r = ?q * 64 + c3" by simp
  have d: "?r div 64 = ?q" and m: "?r mod 64 = c3"
    unfolding e using split2 [OF assms(3), of ?q] by blast+
  note s = split3 [OF assms(1) assms(2), of a]
  have "?r div 4096 = ?r div 64 div 64"
    by (simp add: div_mult2_eq [symmetric])
  with d s have d2: "?r div 4096 mod 64 = c1" by simp
  have "?r div 262144 = ?r div 64 div 4096"
    by (simp add: div_mult2_eq [symmetric])
  with d s have d3: "?r div 262144 = a" by simp
  from d s have d1: "?r div 64 mod 64 = c2" by simp
  from d1 d2 d3 m show ?thesis by blast
qed

lemma decodeRune_cases [case_names ascii two three four invalid]:
  obtains
    (ascii) "byteVal b < 0x80" "decodeRune (b # t) = (byteVal b, 1)"
  | (two) b1 t' where "t = b1 # t'" "0xC2 \<le> byteVal b" "byteVal b \<le> 0xDF"
      "0x80 \<le> byteVal b1" "byteVal b1 \<le> 0xBF"
      "decodeRune (b # t) = ((byteVal b - 0xC0) * 64 + (byteVal b1 - 0x80), 2)"
  | (three) b1 b2 t' where "t = b1 # b2 # t'" "0xE0 \<le> byteVal b" "byteVal b \<le> 0xEF"
      "(if byteVal b = 0xE0 then 0xA0 else 0x80) \<le> byteVal b1"
      "byteVal b1 \<le> (if byteVal b = 0xED then 0x9F else 0xBF)"
      "0x80 \<le> byteVal b2" "byteVal b2 \<le> 0xBF"
      "decodeRune (b # t) =
         ((byteVal b - 0xE0) * 4096 + (byteVal b1 - 0x80) * 64 + (byteVal b2 - 0x80), 3)"
  | (four) b1 b2 b3 t' where "t = b1 # b2 # b3 # t'" "0xF0 \<le> byteVal b" "byteVal b \<le> 0xF4"
      "(if byteVal b = 0xF0 then 0x90 else 0x80) \<le> byteVal b1"
      "byteVal b1 \<le> (if byteVal b = 0xF4 then 0x8F else 0xBF)"
      "0x80 \<le> byteVal b2" "byteVal b2 \<le> 0xBF" "0x80 \<le> byteVal b3" "byteVal b3 \<le> 0xBF"
      "decodeRune (b # t) =
         ((byteVal b - 0xF0) * 262144 + (byteVal b1 - 0x80) * 4096
            + (byteVal b2 - 0x80) * 64 + (byteVal b3 - 0x80), 4)"
  | (invalid) "0x80 \<le> byteVal b" "decodeRune (b # t) = (RuneError, 1)"
proof -
  define is2 where "is2 = (0xC2 \<le> byteVal b \<and> byteVal b \<le> 0xDF)"
  define is3 where "is3 = (0xE0 \<le> byteVal b \<and> byteVal b \<le> 0xEF)"
  define is4 where "is4 = (0xF0 \<le> byteVal b \<and> byteVal b \<le> 0xF4)"
  define lo3 :: nat where "lo3 = (if byteVal b = 0xE0 then 0xA0 else 0x80)"
  define hi3 :: nat where "hi3 = (if byteVal b = 0xED then 0x9F else 0xBF)"
  define lo4 :: nat where "lo4 = (if byteVal b = 0xF0 then 0x90 else 0x80)"
  define hi4 :: nat where "hi4 = (if byteVal b = 0xF4 then 0x8F else 0xBF)"
  have eq: "decodeRune (b # t) =
     (if byteVal b < 0x80 then (byteVal b, 1)
      else if is2 then
        (case t of
           b1 # _ \<Rightarrow>
             if inRange 0x80 0xBF b1 then ((byteVal b - 0xC0) * 64 + contBits b1, 2)
             else (RuneError, 1)
         | _ \<Rightarrow> (RuneError, 1))
      else if is3 then
        (case t of
           b1 # b2 # _ \<Rightarrow>
             if inRange lo3 hi3 b1 \<and> inRange 0x80 0xBF b2
             then ((byteVal b - 0xE0) * 4096 + contBits b1 * 64 + contBits b2, 3)
             else (RuneError, 1)
         | _ \<Rightarrow> (RuneError, 1))
      else if is4 then
        (case t of
           b1 # b2 # b3 # _ \<Rightarrow>
             if inRange lo4 hi4 b1 \<and> inRange 0x80 0xBF b2 \<and> inRange 0x80 0xBF b3
             then ((byteVal b - 0xF0) * 262144 + contBits b1 * 4096
                     + contBits b2 * 64 + contBits b3, 4)
             else (RuneError, 1)
         | _ \<Rightarrow> (RuneError, 1))
      else (RuneError, 1))"
    unfolding is2_def is3_def is4_def lo3_def hi3_def lo4_def hi4_def decodeRune.simps Let_def
    by (rule refl)
  show ?thesis
  proof (cases "byteVal b < 0x80")
    case True
    with eq show ?thesis using ascii by simp
  next
    case hi: False
    then have hi': "0x80 \<le> byteVal b" by simp
    show ?thesis
    proof (cases is2)
      case True
      show ?thesis
      proof (cases t)
        case Nil
        with eq hi True show ?thesis using invalid [OF hi'] by simp
      next
        case (Cons b1 t')
        show ?thesis
        proof (cases "inRange 0x80 0xBF b1")
          case ok: True
          with eq hi True Cons show ?thesis
            using two [of b1 t'] by (simp add: inRange_def contBits_def is2_def)
        next
          case False
          with eq hi True Cons show ?thesis using invalid [OF hi'] by simp
        qed
      qed
    next
      case n2: False
      show ?thesis
      proof (cases is3)
        case True
        show ?thesis
        proof (cases t)
          case Nil
          with eq hi n2 True show ?thesis using invalid [OF hi'] by simp
        next
          case c1: (Cons b1 t1)
          show ?thesis
          proof (cases t1)
            case Nil
            with eq hi n2 True c1 show ?thesis using invalid [OF hi'] by simp
          next
            case c2: (Cons b2 t')
            show ?thesis
            proof (cases "inRange lo3 hi3 b1 \<and> inRange 0x80 0xBF b2")
              case ok: True
              with eq hi n2 True c1 c2 have
                "decodeRune (b # t) =
                   ((byteVal b - 0xE0) * 4096 + (byteVal b1 - 0x80) * 64 + (byteVal b2 - 0x80), 3)"
                by (simp add: contBits_def)
              with ok True c1 c2 show ?thesis
                using three [of b1 b2 t']
                by (simp add: inRange_def is3_def lo3_def hi3_def)
            next
              case False
              with eq hi n2 True c1 c2 show ?thesis using invalid [OF hi'] by simp
            qed
          qed
        qed
      next
        case n3: False
        show ?thesis
        proof (cases is4)
          case True
          show ?thesis
          proof (cases t)
            case Nil
            with eq hi n2 n3 True show ?thesis using invalid [OF hi'] by simp
          next
            case c1: (Cons b1 t1)
            show ?thesis
            proof (cases t1)
              case Nil
              with eq hi n2 n3 True c1 show ?thesis using invalid [OF hi'] by simp
            next
              case c2: (Cons b2 t2)
              show ?thesis
              proof (cases t2)
                case Nil
                with eq hi n2 n3 True c1 c2 show ?thesis using invalid [OF hi'] by simp
              next
                case c3: (Cons b3 t')
                show ?thesis
                proof (cases "inRange lo4 hi4 b1 \<and> inRange 0x80 0xBF b2 \<and> inRange 0x80 0xBF b3")
                  case ok: True
                  with eq hi n2 n3 True c1 c2 c3 have
                    "decodeRune (b # t) =
                       ((byteVal b - 0xF0) * 262144 + (byteVal b1 - 0x80) * 4096
                          + (byteVal b2 - 0x80) * 64 + (byteVal b3 - 0x80), 4)"
                    by (simp add: contBits_def)
                  with ok True c1 c2 c3 show ?thesis
                    using four [of b1 b2 b3 t']
                    by (simp add: inRange_def is4_def lo4_def hi4_def)
                next
                  case False
                  with eq hi n2 n3 True c1 c2 c3 show ?thesis using invalid [OF hi'] by simp
                qed
              qed
            qed
          qed
        next
          case False
          with eq hi n2 n3 show ?thesis using invalid [OF hi'] by simp
        qed
      qed
    qed
  qed
qed


text \<open>Writing the rune read from a valid encoding gives back the bytes read, and the
  rune lies in the range of its width.\<close>

lemma decodeRune_good:
  assumes "decodeRune (b # t) \<noteq> (RuneError, 1)"
  shows "encodeRune (fst (decodeRune (b # t))) = take (snd (decodeRune (b # t))) (b # t)
         \<and> runeOfWidth (fst (decodeRune (b # t))) (snd (decodeRune (b # t)))"
proof (cases rule: decodeRune_cases [of b t])
  case ascii
  then show ?thesis by (simp add: encodeRune_def char_of_byteVal runeOfWidth_def)
next
  case (two b1 t')
  define a where "a = byteVal b - 0xC0"
  define c where "c = byteVal b1 - 0x80"
  have ab: "2 \<le> a" "a < 32" "byteVal b = 0xC0 + a" using two by (simp_all add: a_def)
  have cb: "c < 64" "byteVal b1 = 0x80 + c" using two by (simp_all add: c_def)
  have r: "128 \<le> a * 64 + c" "a * 64 + c < 2048" using ab cb by simp_all
  from split2 [OF cb(1), of a] r ab cb
  have "encodeRune (a * 64 + c) = [char_of (byteVal b), char_of (byteVal b1)]"
    by (simp add: encodeRune_def)
  with two r show ?thesis by (simp add: a_def c_def char_of_byteVal runeOfWidth_def)
next
  case (three b1 b2 t')
  define a where "a = byteVal b - 0xE0"
  define c1 where "c1 = byteVal b1 - 0x80"
  define c2 where "c2 = byteVal b2 - 0x80"
  have ab: "a < 16" "byteVal b = 0xE0 + a" using three by (simp_all add: a_def)
  have c1b: "c1 < 64" "byteVal b1 = 0x80 + c1" using three by (simp_all add: c1_def split: if_splits)
  have c2b: "c2 < 64" "byteVal b2 = 0x80 + c2" using three by (simp_all add: c2_def)
  have lo: "a = 0 \<longrightarrow> 32 \<le> c1" using three ab c1b by (auto split: if_splits)
  have hi: "a = 13 \<longrightarrow> c1 < 32" using three ab c1b by (auto split: if_splits)
  let ?r = "a * 4096 + c1 * 64 + c2"
  have r1: "2048 \<le> ?r"
  proof (cases "a = 0")
    case True
    with lo show ?thesis by simp
  next
    case False
    then have "1 \<le> a" by simp
    then have "4096 \<le> a * 4096" by simp
    then show ?thesis by simp
  qed
  have r2: "?r < 65536" using ab c1b c2b by simp
  have r3: "\<not> (55296 \<le> ?r \<and> ?r \<le> 57343)"
  proof (cases "a = 13")
    case True
    with hi c2b show ?thesis by simp
  next
    case False
    then have "a \<le> 12 \<or> 14 \<le> a" by arith
    then show ?thesis
    proof
      assume "a \<le> 12"
      then have "a * 4096 \<le> 12 * 4096" by (rule mult_le_mono1)
      with c1b c2b show ?thesis by simp
    next
      assume "14 \<le> a"
      then have "14 * 4096 \<le> a * 4096" by (rule mult_le_mono1)
      then show ?thesis by simp
    qed
  qed
  have "encodeRune ?r = [char_of (byteVal b), char_of (byteVal b1), char_of (byteVal b2)]"
  proof (cases "?r < 55296")
    case True
    with split3 [OF c1b(1) c2b(1), of a] r1 ab c1b c2b show ?thesis
      by (simp add: encodeRune_def)
  next
    case False
    with r3 have "57343 < ?r" by simp
    with split3 [OF c1b(1) c2b(1), of a] r1 r2 ab c1b c2b show ?thesis
      by (simp add: encodeRune_def)
  qed
  with three r1 r2 r3 show ?thesis
    by (simp add: a_def c1_def c2_def char_of_byteVal runeOfWidth_def)
next
  case (four b1 b2 b3 t')
  define a where "a = byteVal b - 0xF0"
  define c1 where "c1 = byteVal b1 - 0x80"
  define c2 where "c2 = byteVal b2 - 0x80"
  define c3 where "c3 = byteVal b3 - 0x80"
  have ab: "a < 5" "byteVal b = 0xF0 + a" using four by (simp_all add: a_def)
  have c1b: "c1 < 64" "byteVal b1 = 0x80 + c1" using four by (simp_all add: c1_def split: if_splits)
  have c2b: "c2 < 64" "byteVal b2 = 0x80 + c2" using four by (simp_all add: c2_def)
  have c3b: "c3 < 64" "byteVal b3 = 0x80 + c3" using four by (simp_all add: c3_def)
  have lo: "a = 0 \<longrightarrow> 16 \<le> c1" using four ab c1b by (auto split: if_splits)
  have hi: "a = 4 \<longrightarrow> c1 < 16" using four ab c1b by (auto split: if_splits)
  let ?r = "a * 262144 + c1 * 4096 + c2 * 64 + c3"
  have r1: "65536 \<le> ?r"
  proof (cases "a = 0")
    case True
    with lo have "16 * 4096 \<le> c1 * 4096" by simp
    then show ?thesis by simp
  next
    case False
    then have "1 \<le> a" by simp
    then have "262144 \<le> a * 262144" by simp
    then show ?thesis by simp
  qed
  have r2: "?r \<le> 1114111"
  proof (cases "a = 4")
    case True
    with hi c2b c3b show ?thesis by simp
  next
    case False
    with ab have "a \<le> 3" by simp
    then have "a * 262144 \<le> 3 * 262144" by (rule mult_le_mono1)
    with c1b c2b c3b show ?thesis by simp
  qed
  from split4 [OF c1b(1) c2b(1) c3b(1), of a] r1 r2 ab c1b c2b c3b
  have "encodeRune ?r =
          [char_of (byteVal b), char_of (byteVal b1), char_of (byteVal b2), char_of (byteVal b3)]"
    by (simp add: encodeRune_def)
  with four r1 r2 show ?thesis
    by (simp add: a_def c1_def c2_def c3_def char_of_byteVal runeOfWidth_def)
next
  case invalid
  with assms show ?thesis by simp
qed


lemma decodeRune_width:
  "1 \<le> snd (decodeRune (b # t)) \<and> snd (decodeRune (b # t)) \<le> length (b # t)"
  by (cases rule: decodeRune_cases [of b t]) simp_all

lemma runeOfWidth_validRune: "runeOfWidth r w \<Longrightarrow> validRune r"
  by (auto simp: runeOfWidth_def validRune_def)

lemma decodeRune_validRune: "validRune (fst (decodeRune s))"
proof (cases s)
  case Nil
  then show ?thesis by (simp add: validRune_def RuneError_def)
next
  case (Cons b t)
  show ?thesis
  proof (cases "decodeRune (b # t) = (RuneError, 1)")
    case True
    with Cons show ?thesis by (simp add: validRune_def RuneError_def)
  next
    case False
    from decodeRune_good [OF False]
    have "runeOfWidth (fst (decodeRune (b # t))) (snd (decodeRune (b # t)))" by blast
    then have "validRune (fst (decodeRune (b # t)))" by (rule runeOfWidth_validRune)
    with Cons show ?thesis by simp
  qed
qed

text \<open>A rune below \<open>0x80\<close> comes from the byte with that value, and from no other.\<close>

lemma decodeRune_small: "fst (decodeRune (b # t)) < 0x80 \<longleftrightarrow> byteVal b < 0x80"
proof (cases rule: decodeRune_cases [of b t])
  case ascii
  then show ?thesis by simp
next
  case invalid
  then show ?thesis by (simp add: RuneError_def)
next
  case (two b1 t')
  then have n: "decodeRune (b # t) \<noteq> (RuneError, 1)" by simp
  from decodeRune_good [OF n] two show ?thesis by (simp add: runeOfWidth_def)
next
  case (three b1 b2 t')
  then have n: "decodeRune (b # t) \<noteq> (RuneError, 1)" by simp
  from decodeRune_good [OF n] three show ?thesis by (simp add: runeOfWidth_def)
next
  case (four b1 b2 b3 t')
  then have n: "decodeRune (b # t) \<noteq> (RuneError, 1)" by simp
  from decodeRune_good [OF n] four show ?thesis by (simp add: runeOfWidth_def)
qed


lemma scale64: "x * 4096 + y * 64 = (x * 64 + y) * (64::nat)"
  by simp

lemma scale64': "x * 262144 + y * 4096 + z * 64 = (x * 4096 + y * 64 + z) * (64::nat)"
  by simp

lemma join3:
  fixes r :: nat
  shows "r = (r div 4096) * 4096 + (r div 64 mod 64) * 64 + r mod 64"
proof -
  let ?q = "r div 64"
  have a: "r div 4096 = ?q div 64" by (simp add: div_mult2_eq [symmetric])
  have e1: "?q div 64 * 4096 + ?q mod 64 * 64 = (?q div 64 * 64 + ?q mod 64) * 64"
    by (rule scale64)
  have e2: "?q div 64 * 64 + ?q mod 64 = ?q" by (rule div_mult_mod_eq)
  have e3: "?q * 64 + r mod 64 = r" by (rule div_mult_mod_eq)
  have "?q div 64 * 4096 + ?q mod 64 * 64 + r mod 64 = r"
    unfolding e1 e2 by (rule e3)
  then show ?thesis unfolding a by (rule sym)
qed

lemma join4:
  fixes r :: nat
  shows "r = (r div 262144) * 262144 + (r div 4096 mod 64) * 4096 + (r div 64 mod 64) * 64
               + r mod 64"
proof -
  let ?q = "r div 64"
  have a: "r div 262144 = ?q div 4096" by (simp add: div_mult2_eq [symmetric])
  have b: "r div 4096 = ?q div 64" by (simp add: div_mult2_eq [symmetric])
  have e1: "?q div 4096 * 262144 + ?q div 64 mod 64 * 4096 + ?q mod 64 * 64
          = (?q div 4096 * 4096 + ?q div 64 mod 64 * 64 + ?q mod 64) * 64"
    by (rule scale64')
  have e2: "?q div 4096 * 4096 + ?q div 64 mod 64 * 64 + ?q mod 64 = ?q"
    by (rule join3 [symmetric])
  have e3: "?q * 64 + r mod 64 = r" by (rule div_mult_mod_eq)
  have "?q div 4096 * 262144 + ?q div 64 mod 64 * 4096 + ?q mod 64 * 64 + r mod 64 = r"
    unfolding e1 e2 by (rule e3)
  then show ?thesis unfolding a b by (rule sym)
qed

text \<open>Reading back what \<open>WriteRune\<close> wrote gives the rune written.\<close>

lemma decodeRune_encodeRune:
  assumes "validRune r"
  shows "decodeRune (encodeRune r @ t) = (r, length (encodeRune r))"
proof -
  consider (w1) "r < 0x80" | (w2) "0x80 \<le> r" "r < 0x800"
    | (w3) "0x800 \<le> r" "r < 0x10000" | (w4) "0x10000 \<le> r"
    by arith
  then show ?thesis
  proof cases
    case w1
    then have "byteVal (char_of r) = r" by (simp add: byteVal_char_of)
    with w1 show ?thesis by (simp add: encodeRune_def decodeRune.simps)
  next
    case w2
    define a where "a = r div 64"
    define c where "c = r mod 64"
    have r: "r = a * 64 + c" by (simp add: a_def c_def)
    have c: "c < 64" by (simp add: c_def)
    have a: "2 \<le> a" "a < 32" using w2 by (simp_all add: a_def)
    have b0: "byteVal (char_of (0xC0 + a)) = 0xC0 + a" using a by (simp add: byteVal_char_of)
    have b1: "byteVal (char_of (0x80 + c)) = 0x80 + c" using c by (simp add: byteVal_char_of)
    have e: "encodeRune r = [char_of (0xC0 + a), char_of (0x80 + c)]"
      using w2 by (simp add: encodeRune_def a_def c_def)
    have "decodeRune (char_of (0xC0 + a) # char_of (0x80 + c) # t) = (a * 64 + c, 2)"
      using a c by (simp add: decodeRune.simps Let_def b0 b1 inRange_def contBits_def)
    with e r show ?thesis by simp
  next
    case w3
    define a where "a = r div 4096"
    define c1 where "c1 = r div 64 mod 64"
    define c2 where "c2 = r mod 64"
    have r: "r = a * 4096 + c1 * 64 + c2" unfolding a_def c1_def c2_def by (rule join3)
    have c: "c1 < 64" "c2 < 64" by (simp_all add: c1_def c2_def)
    have a: "a < 16" using w3 by (simp add: a_def)
    have ns: "r < 0xD800 \<or> 0xE000 \<le> r" using assms by (auto simp: validRune_def)
    have lo: "a = 0 \<longrightarrow> 32 \<le> c1" using w3(1) r c by auto
    have hi: "a = 13 \<longrightarrow> c1 < 32" using ns r c by auto
    have b0: "byteVal (char_of (0xE0 + a)) = 0xE0 + a" using a by (simp add: byteVal_char_of)
    have b1: "byteVal (char_of (0x80 + c1)) = 0x80 + c1" using c by (simp add: byteVal_char_of)
    have b2: "byteVal (char_of (0x80 + c2)) = 0x80 + c2" using c by (simp add: byteVal_char_of)
    have e: "encodeRune r = [char_of (0xE0 + a), char_of (0x80 + c1), char_of (0x80 + c2)]"
      using w3 ns by (auto simp: encodeRune_def a_def c1_def c2_def)
    have "decodeRune (char_of (0xE0 + a) # char_of (0x80 + c1) # char_of (0x80 + c2) # t)
            = (a * 4096 + c1 * 64 + c2, 3)"
      using a c lo hi by (auto simp: decodeRune.simps Let_def b0 b1 b2 inRange_def contBits_def)
    with e r show ?thesis by simp
  next
    case w4
    define a where "a = r div 262144"
    define c1 where "c1 = r div 4096 mod 64"
    define c2 where "c2 = r div 64 mod 64"
    define c3 where "c3 = r mod 64"
    have r: "r = a * 262144 + c1 * 4096 + c2 * 64 + c3"
      unfolding a_def c1_def c2_def c3_def by (rule join4)
    have c: "c1 < 64" "c2 < 64" "c3 < 64" by (simp_all add: c1_def c2_def c3_def)
    have top: "r \<le> 0x10FFFF" using assms w4 by (auto simp: validRune_def)
    then have a: "a < 5" by (simp add: a_def)
    have lo: "a = 0 \<longrightarrow> 16 \<le> c1" using w4 r c by auto
    have hi: "a = 4 \<longrightarrow> c1 < 16" using top r c by auto
    have b0: "byteVal (char_of (0xF0 + a)) = 0xF0 + a" using a by (simp add: byteVal_char_of)
    have b1: "byteVal (char_of (0x80 + c1)) = 0x80 + c1" using c by (simp add: byteVal_char_of)
    have b2: "byteVal (char_of (0x80 + c2)) = 0x80 + c2" using c by (simp add: byteVal_char_of)
    have b3: "byteVal (char_of (0x80 + c3)) = 0x80 + c3" using c by (simp add: byteVal_char_of)
    have e: "encodeRune r =
               [char_of (0xF0 + a), char_of (0x80 + c1), char_of (0x80 + c2), char_of (0x80 + c3)]"
      using w4 top by (simp add: encodeRune_def a_def c1_def c2_def c3_def)
    have "decodeRune (char_of (0xF0 + a) # char_of (0x80 + c1) # char_of (0x80 + c2)
                       # char_of (0x80 + c3) # t)
            = (a * 262144 + c1 * 4096 + c2 * 64 + c3, 4)"
      using a c lo hi by (auto simp: decodeRune.simps Let_def b0 b1 b2 b3 inRange_def contBits_def)
    with e r show ?thesis by simp
  qed
qed

section \<open>Line numbers\<close>

text \<open>
  C1. The claim: each of \<open>\n\<close>, \<open>\r\<close>, \<open>U+2028\<close> and \<open>U+2029\<close> counts as one line
  boundary, \<open>\r\n\<close> as one in total, so that for the contents \<open>a\r\nb\<close> the offset of
  \<open>b\<close> is reported on line 2. The code increments the line count only at a \<open>\n\<close> that
  does not follow a \<open>\r\<close>: the scan of \<open>a\r\n\<close> returns line count 0, column 0 and line
  start 3, and the detail of a message at offset 3 has line 1.
\<close>

theorem C1_crlf_reported_on_line_1:
  "ComputeLineAndColumn [CHR ''a'', CHR 0x0D, CHR 0x0A] = (0, 0, 3)
   \<and> map_option Line
        (detailStruct
           \<lparr>Msg.Source = Some \<lparr>Index = 0, AbsolutePath = ''/a.js'', PrettyPath = ''a.js'',
                                Contents = [CHR ''a'', CHR 0x0D, CHR 0x0A, CHR ''b'']\<rparr>,
            Start = 3, Length = 0, Text = ''x'', Msg.Kind = Error\<rparr>
           \<lparr>IsTTY = False, UseColorEscapes = False, Width = 0\<rparr>) = Some 1"
  by (simp add: eval_line_col eval_detail eval_slices)


section \<open>Summary text\<close>

lemma digit_simps:
  "digit 0 = CHR ''0''" "digit 1 = CHR ''1''" "digit 2 = CHR ''2''" "digit 3 = CHR ''3''"
  "digit 4 = CHR ''4''" "digit 5 = CHR ''5''" "digit 6 = CHR ''6''" "digit 7 = CHR ''7''"
  "digit 8 = CHR ''8''" "digit 9 = CHR ''9''" "digit (Suc 0) = CHR ''1''"
  by (simp_all add: digit_def char_of_def bit_0)

lemma showInt_1: "showInt 1 = ''1''"
  by (simp add: showInt_def showNat.simps digit_simps)

lemma showInt_2: "showInt 2 = ''2''"
  by (simp add: showInt_def showNat.simps digit_simps)

lemma showNat_decimal: "decimalValue (showNat n) = n"
proof (induction n rule: showNat.induct)
  case (1 n)
  show ?case
  proof (cases "n < 10")
    case True
    then show ?thesis
      by (subst showNat.simps) (simp add: decimalValue_def digit_def byteVal_def)
  next
    case False
    have d: "byteVal (digit (n mod 10)) - 48 = n mod 10"
      by (simp add: digit_def byteVal_def)
    from False 1 have "decimalValue (showNat (n div 10)) = n div 10" by simp
    with False d show ?thesis
      by (subst showNat.simps) (simp add: decimalValue_def)
  qed
qed


text \<open>
  C6. \<open>plural\<close> of the count 1 is \<open>1 <noun>\<close>, and of any other count \<open>n\<close> it is
  \<open><n> <noun>s\<close>. The summary is \<open>no errors\<close> when both counters are zero, the
  errors phrase alone when there are no warnings, the warnings phrase alone when there
  are no errors, and otherwise the warnings phrase, \<open>and\<close>, the errors phrase; 2 errors
  and 1 warning give \<open>1 warning and 2 errors\<close>.
\<close>

theorem C6_plural_and_summary:
  "plural noun 1 = ''1 '' @ noun
   \<and> (n \<noteq> 1 \<longrightarrow> plural noun n = showInt n @ '' '' @ noun @ ''s'')
   \<and> stderrLogInfoString counts =
       (if errors counts = 0 \<and> warnings counts = 0 then ''no errors''
        else if warnings counts = 0 then plural ''error'' (errors counts)
        else if errors counts = 0 then plural ''warning'' (warnings counts)
        else plural ''warning'' (warnings counts) @ '' and '' @ plural ''error'' (errors counts))
   \<and> stderrLogInfoString \<lparr>msgs = ms, errors = 2, warnings = 1, errorLimitWasHit = h\<rparr>
       = ''1 warning and 2 errors''"
  by (simp add: plural_def stderrLogInfoString_def showInt_1 showInt_2)

theorem C6_plural_and_summary_witness:
  "(2::int) \<noteq> 1 \<and> plural ''error'' 2 = ''2 errors'' \<and> plural ''error'' 1 = ''1 error''"
  using C6_plural_and_summary [of "''error''" 2]
  by (simp add: showInt_2)

section \<open>The worker and the error limit\<close>

lemma levelNum_le_Error: "levelNum l \<le> levelNum LevelError"
  by (cases l) simp_all

text \<open>The worker keeps every message, whatever it prints.\<close>

lemma workerStep_msgs:
  "workerStep options ti (r, w) m = Some (r', w') \<Longrightarrow> msgs r' = msgs r @ [m]"
  by (auto simp: workerStep_def Let_def split: if_splits MsgKind.splits Option.bind_splits)

lemma workerLoop_msgs:
  "workerLoop options ti (r, w) sent = Some (r', w') \<Longrightarrow> msgs r' = msgs r @ sent"
proof (induction sent arbitrary: r w)
  case Nil
  then show ?case by simp
next
  case (Cons m sent)
  from Cons.prems obtain r1 w1 where
    s: "workerStep options ti (r, w) m = Some (r1, w1)"
    and l: "workerLoop options ti (r1, w1) sent = Some (r', w')"
    by (auto split: option.splits)
  from Cons.IH [OF l] workerStep_msgs [OF s] show ?case by simp
qed

lemma workerStep_counts:
  "workerStep options ti (r, w) m = Some (r', w') \<Longrightarrow> \<not> errorLimitWasHit r' \<Longrightarrow>
     \<not> errorLimitWasHit r
     \<and> errors r' = errors r + countKind Error [m]
     \<and> warnings r' = warnings r + countKind Warning [m]"
  by (auto simp: workerStep_def Let_def countKind_def
           split: if_splits MsgKind.splits Option.bind_splits)

lemma workerLoop_counts:
  "workerLoop options ti (r, w) sent = Some (r', w') \<Longrightarrow> \<not> errorLimitWasHit r' \<Longrightarrow>
     \<not> errorLimitWasHit r
     \<and> errors r' = errors r + countKind Error sent
     \<and> warnings r' = warnings r + countKind Warning sent"
proof (induction sent arbitrary: r w)
  case Nil
  then show ?case by (simp add: countKind_def)
next
  case (Cons m sent)
  from Cons.prems obtain r1 w1 where
    s: "workerStep options ti (r, w) m = Some (r1, w1)"
    and l: "workerLoop options ti (r1, w1) sent = Some (r', w')"
    by (auto split: option.splits)
  from Cons.IH [OF l Cons.prems(2)] have
    a: "\<not> errorLimitWasHit r1"
    and b: "errors r' = errors r1 + countKind Error sent"
    and c: "warnings r' = warnings r1 + countKind Warning sent"
    by simp_all
  from workerStep_counts [OF s a] b c show ?case
    by (simp add: countKind_def)
qed


text \<open>
  C7. When the worker has drained (its final state is \<open>result\<close>, having written
  \<open>written\<close>), finalize writes the summary followed by a newline if and only if the
  error limit was never reached, the log level is at most \<open>LevelInfo\<close> and at least one
  error or warning was counted; otherwise it writes nothing more. As long as the limit
  was not reached, the counters are the numbers of errors and warnings sent.
\<close>

theorem C7_summary_line:
  assumes "workerLoop options (applyColor k options stderrInfo) (emptyInfo, []) sent
             = Some (result, written)"
  shows "NewStderrLog k stderrInfo options sent =
           Some (sent,
                 written @
                   (if \<not> errorLimitWasHit result
                       \<and> levelNum (LogLevel options) \<le> levelNum LevelInfo
                       \<and> (errors result \<noteq> 0 \<or> warnings result \<noteq> 0)
                    then [stderrLogInfoString result @ [CHR 0x0A]] else []))
         \<and> (\<not> errorLimitWasHit result \<longrightarrow>
              errors result = countKind Error sent \<and> warnings result = countKind Warning sent)"
proof -
  from workerLoop_msgs [OF assms] have m: "msgs result = sent"
    by (simp add: emptyInfo_def)
  from workerLoop_counts [OF assms] have
    c: "\<not> errorLimitWasHit result \<longrightarrow>
          errors result = countKind Error sent \<and> warnings result = countKind Warning sent"
    by (simp add: emptyInfo_def)
  from assms m have "NewStderrLog k stderrInfo options sent =
           Some (sent,
                 written @
                   (if \<not> errorLimitWasHit result
                       \<and> levelNum (LogLevel options) \<le> levelNum LevelInfo
                       \<and> (errors result \<noteq> 0 \<or> warnings result \<noteq> 0)
                    then [stderrLogInfoString result @ [CHR 0x0A]] else []))"
    by (auto simp: NewStderrLog_def finalize_def Let_def)
  with c show ?thesis by blast
qed


theorem C7_summary_line_witness:
  "NewStderrLog True \<lparr>IsTTY = False, UseColorEscapes = False, Width = 0\<rparr>
     \<lparr>IncludeSource = False, ErrorLimit = 0, Color = ColorIfTerminal, LogLevel = LevelInfo\<rparr>
     [AddError None \<lparr>LocStart = 0\<rparr> ''a'']
   = Some ([AddError None \<lparr>LocStart = 0\<rparr> ''a''],
           [''error: a'' @ [CHR 0x0A], ''1 error'' @ [CHR 0x0A]])"
  using C7_summary_line [of
    "\<lparr>IncludeSource = False, ErrorLimit = 0, Color = ColorIfTerminal, LogLevel = LevelInfo\<rparr>"
    True "\<lparr>IsTTY = False, UseColorEscapes = False, Width = 0\<rparr>"
    "[AddError None \<lparr>LocStart = 0\<rparr> ''a'']"
    "\<lparr>msgs = [AddError None \<lparr>LocStart = 0\<rparr> ''a''], errors = 1, warnings = 0,
      errorLimitWasHit = False\<rparr>"
    "[''error: a'' @ [CHR 0x0A]]"]
  by (simp add: workerStep_def applyColor_def emptyInfo_def AddError_def MsgString_def
                kindString_def kindColorOf_def stderrLogInfoString_def plural_def showInt_1)

lemma MsgString_no_source:
  "Msg.Source m = None \<Longrightarrow> \<not> UseColorEscapes ti \<Longrightarrow>
     MsgString m options ti = Some (kindString (Msg.Kind m) @ '': '' @ Text m @ [CHR 0x0A])"
  by (simp add: MsgString_def)

text \<open>
  C2. With \<open>ErrorLimit = 2\<close>, at any log level, five errors sent to the sink write the
  first two rendered errors and then one limit notice, nothing for the other three, and
  finalize returns all five messages. Whatever is sent, finalize returns exactly the
  messages sent: reaching the limit removes none.
\<close>

theorem C2_error_limit:
  assumes limit: "ErrorLimit options = 2"
    and kinds: "\<forall>m \<in> set [m1, m2, m3, m4, m5]. Msg.Kind m = Error"
    and r1: "MsgString m1 options (applyColor k options stderrInfo) = Some r1"
    and r2: "MsgString m2 options (applyColor k options stderrInfo) = Some r2"
  shows "NewStderrLog k stderrInfo options [m1, m2, m3, m4, m5] =
           Some ([m1, m2, m3, m4, m5],
                 [r1, r2, ''2 errors reached (disable error limit with --error-limit=0)''
                            @ [CHR 0x0A]])
         \<and> (\<forall>sent returned written.
               NewStderrLog k stderrInfo options sent = Some (returned, written)
               \<longrightarrow> returned = sent)"
proof -
  let ?ti = "applyColor k options stderrInfo"
  have lv: "levelNum (LogLevel options) \<le> 3"
    using levelNum_le_Error [of "LogLevel options"] by simp
  let ?i1 = "\<lparr>msgs = [m1], errors = 1, warnings = 0, errorLimitWasHit = False\<rparr>"
  let ?i2 = "\<lparr>msgs = [m1, m2], errors = 2, warnings = 0, errorLimitWasHit = True\<rparr>"
  let ?notice = "''2 errors reached (disable error limit with --error-limit=0)'' @ [CHR 0x0A]"
  have s1: "workerStep options ?ti (emptyInfo, []) m1 = Some (?i1, [r1])"
    using limit kinds r1 lv by (simp add: workerStep_def emptyInfo_def)
  have n: "limitNotice ?i2 = ?notice"
    by (simp add: limitNotice_def stderrLogInfoString_def plural_def showInt_2)
  have s2: "workerStep options ?ti (?i1, [r1]) m2 = Some (?i2, [r1, r2, ?notice])"
    using limit kinds r2 lv n by (simp add: workerStep_def limitNotice_def)
  have s3: "\<And>r w m. errorLimitWasHit r \<Longrightarrow>
              workerStep options ?ti (r, w) m = Some (r\<lparr>msgs := msgs r @ [m]\<rparr>, w)"
    by (simp add: workerStep_def)
  have run: "workerLoop options ?ti (emptyInfo, []) [m1, m2, m3, m4, m5] =
               Some (\<lparr>msgs = [m1, m2, m3, m4, m5], errors = 2, warnings = 0,
                       errorLimitWasHit = True\<rparr>, [r1, r2, ?notice])"
    by (simp add: s1 s2 s3)
  have first: "NewStderrLog k stderrInfo options [m1, m2, m3, m4, m5] =
                 Some ([m1, m2, m3, m4, m5], [r1, r2, ?notice])"
    unfolding NewStderrLog_def Let_def run by (simp add: finalize_def)
  have second: "\<forall>sent returned written.
                  NewStderrLog k stderrInfo options sent = Some (returned, written)
                  \<longrightarrow> returned = sent"
  proof (intro allI impI)
    fix sent returned written
    assume a: "NewStderrLog k stderrInfo options sent = Some (returned, written)"
    then obtain r w where l: "workerLoop options ?ti (emptyInfo, []) sent = Some (r, w)"
      and f: "finalize options (r, w) = (returned, written)"
      by (auto simp: NewStderrLog_def Let_def)
    from workerLoop_msgs [OF l] have "msgs r = sent" by (simp add: emptyInfo_def)
    with f show "returned = sent" by (auto simp: finalize_def split: if_splits)
  qed
  from first second show ?thesis by blast
qed

theorem C2_error_limit_witness:
  "NewStderrLog True \<lparr>IsTTY = False, UseColorEscapes = False, Width = 0\<rparr>
     \<lparr>IncludeSource = False, ErrorLimit = 2, Color = ColorIfTerminal, LogLevel = LevelInfo\<rparr>
     [AddError None \<lparr>LocStart = 0\<rparr> ''a'', AddError None \<lparr>LocStart = 0\<rparr> ''b'',
      AddError None \<lparr>LocStart = 0\<rparr> ''c'', AddError None \<lparr>LocStart = 0\<rparr> ''d'',
      AddError None \<lparr>LocStart = 0\<rparr> ''e'']
   = Some ([AddError None \<lparr>LocStart = 0\<rparr> ''a'', AddError None \<lparr>LocStart = 0\<rparr> ''b'',
            AddError None \<lparr>LocStart = 0\<rparr> ''c'', AddError None \<lparr>LocStart = 0\<rparr> ''d'',
            AddError None \<lparr>LocStart = 0\<rparr> ''e''],
           [''error: a'' @ [CHR 0x0A], ''error: b'' @ [CHR 0x0A],
            ''2 errors reached (disable error limit with --error-limit=0)'' @ [CHR 0x0A]])"
  using C2_error_limit [of
    "\<lparr>IncludeSource = False, ErrorLimit = 2, Color = ColorIfTerminal, LogLevel = LevelInfo\<rparr>"
    "AddError None \<lparr>LocStart = 0\<rparr> ''a''" "AddError None \<lparr>LocStart = 0\<rparr> ''b''"
    "AddError None \<lparr>LocStart = 0\<rparr> ''c''" "AddError None \<lparr>LocStart = 0\<rparr> ''d''"
    "AddError None \<lparr>LocStart = 0\<rparr> ''e''"
    True "\<lparr>IsTTY = False, UseColorEscapes = False, Width = 0\<rparr>"
    "''error: a'' @ [CHR 0x0A]" "''error: b'' @ [CHR 0x0A]"]
  by (simp add: applyColor_def AddError_def MsgString_def kindString_def kindColorOf_def)


section \<open>Fitting the line to the terminal width\<close>

lemma centerSlice_formula:
  "width < len lineText \<Longrightarrow>
     centerSlice width lineText markerStart markerEnd =
       min (len lineText - width)
         (max 0 (min ((markerStart + markerEnd - width) sdiv 2) (markerStart - width sdiv 5)))"
  by (simp add: centerSlice_def Let_def min_def max_def)

text \<open>
  C3. For an expanded line of 100 columns, marker bounds 50 and 52 and a width of 20:
  clipping the marker to the line leaves the bounds as they are; the slice starts at
  \<open>(50 + 52 - 20) / 2 = 41\<close>, which the cap \<open>50 - 20/5 = 46\<close> and the clamp to the
  line do not change; the displayed line has exactly 20 columns, begins and ends with
  three dots, and the marker bounds become 9 and 11, which select in the displayed line
  the same text as 50 and 52 in the expanded line.
\<close>

theorem C3_width_clipping:
  assumes "length lineText = 100"
  shows "clipMarker lineText 50 52 = (50, 52)
         \<and> centerSlice 20 lineText 50 52 = 41
         \<and> centerSlice 20 lineText 50 52 =
             min (len lineText - 20) (max 0 (min ((50 + 52 - 20) sdiv 2) (50 - 20 sdiv 5)))
         \<and> (\<exists>displayed.
               trimLine 20 lineText 50 52 = Some (displayed, 9, 11, replicate 9 CHR '' '')
               \<and> displayed = ''...'' @ take 14 (drop 44 lineText) @ ''...''
               \<and> length displayed = 20
               \<and> take 3 displayed = ''...''
               \<and> drop 17 displayed = ''...''
               \<and> slice displayed 9 11 = slice lineText 50 52)"
proof -
  have l: "len lineText = 100" using assms by (simp add: len_def)
  have a: "clipMarker lineText 50 52 = (50, 52)"
    by (simp add: clipMarker_def l)
  have b: "centerSlice 20 lineText 50 52 = 41"
    by (simp add: centerSlice_def l signed_divide_int_def)
  have c: "centerSlice 20 lineText 50 52 =
             min (len lineText - 20) (max 0 (min ((50 + 52 - 20) sdiv 2) (50 - 20 sdiv 5)))"
    by (simp add: b l signed_divide_int_def)
  have s1: "slice lineText 41 61 = Some (take 20 (drop 41 lineText))"
    by (simp add: slice_def l)
  have d: "trimLine 20 lineText 50 52 =
             Some (''...'' @ take 14 (drop 44 lineText) @ ''...'', 9, 11, replicate 9 CHR '' '')"
    using assms
    by (simp add: trimLine_def b s1 l Let_def eval_slices drop_take)
  have e: "slice (''...'' @ take 14 (drop 44 lineText) @ ''...'') 9 11 = slice lineText 50 52"
    using assms by (simp add: slice_def len_def drop_take)
  from a b c d e assms show ?thesis by simp
qed

theorem C3_width_clipping_witness:
  "length (replicate 100 CHR ''a'') = 100
   \<and> trimLine 20 (replicate 100 CHR ''a'') 50 52 =
       Some (''...'' @ replicate 14 CHR ''a'' @ ''...'', 9, 11, replicate 9 CHR '' '')"
  using C3_width_clipping [of "replicate 100 CHR ''a''"]
  by simp


section \<open>Marker bounds\<close>

text \<open>
  C9. The claim: for a message whose range lies within the contents, and any terminal
  width, the marker bounds satisfy \<open>0 \<le> markerStart \<le> markerEnd \<le>\<close> length of the
  displayed line, so that the three parts of the line concatenate to it. For the
  contents \<open>abcdef\<close>, a message at offset 4 of length 0 and a width of 4, the code
  computes the displayed line \<open>...f\<close> with \<open>markerStart = 3\<close> and \<open>markerEnd = 2\<close>:
  replacing the first three columns by dots raises \<open>markerStart\<close> to 3 and nothing
  raises \<open>markerEnd\<close>, because the line is not truncated on the right. The slice
  \<open>lineText[3:2]\<close> then panics.
\<close>

theorem C9_marker_bounds_width_4:
  "clipMarker ''abcdef'' 4 4 = (4, 4)
   \<and> trimLine 4 ''abcdef'' 4 4 = Some (''...f'', 3, 2, replicate 3 CHR '' '')
   \<and> slice ''...f'' 3 2 = None
   \<and> detailStruct
        \<lparr>Msg.Source = Some \<lparr>Index = 0, AbsolutePath = ''/a.js'', PrettyPath = ''a.js'',
                             Contents = ''abcdef''\<rparr>,
         Start = 4, Length = 0, Text = ''x'', Msg.Kind = Error\<rparr>
        \<lparr>IsTTY = True, UseColorEscapes = False, Width = 4\<rparr> = None"
  by (simp add: eval_line_col eval_detail eval_slices)


section \<open>The range of a quoted string\<close>

lemma closingQuote_bound:
  "closingQuote q cs = Some k \<Longrightarrow> k < length cs \<and> cs ! k = q"
proof (induction q cs arbitrary: k rule: closingQuote.induct)
  case (1 q)
  then show ?case by simp
next
  case (2 q c cs)
  show ?case
  proof (cases "c = q")
    case True
    with 2 show ?thesis by simp
  next
    case False
    show ?thesis
    proof (cases "c = CHR 0x5C")
      case True
      with False 2 show ?thesis
        by (auto split: list.splits)
    next
      case nb: False
      with False 2 show ?thesis by auto
    qed
  qed
qed

lemma quoteLoop_closingQuote:
  "quoteLoop t q i = map_option (\<lambda>k. i + k + 1) (closingQuote q (drop i t))"
proof (induction t q i rule: quoteLoop.induct)
  case (1 t quote i)
  show ?case
  proof (cases "i < length t")
    case False
    then show ?thesis by (subst quoteLoop.simps) simp
  next
    case True
    then have d: "drop i t = t ! i # drop (Suc i) t"
      by (simp add: Cons_nth_drop_Suc)
    show ?thesis
    proof (cases "t ! i = quote")
      case True
      with \<open>i < length t\<close> d show ?thesis by (subst quoteLoop.simps) simp
    next
      case nq: False
      show ?thesis
      proof (cases "t ! i = CHR 0x5C")
        case True
        from 1(1) [OF \<open>i < length t\<close> refl nq True]
        have ih: "quoteLoop t quote (i + 1 + 1) =
                    map_option (\<lambda>k. i + 1 + 1 + k + 1) (closingQuote quote (drop (i + 1 + 1) t))" .
        show ?thesis
        proof (cases "Suc i < length t")
          case a: True
          then have d2: "drop (Suc i) t = t ! Suc i # drop (Suc (Suc i)) t"
            by (simp add: Cons_nth_drop_Suc)
          from ih nq True \<open>i < length t\<close> d d2 show ?thesis
            by (subst quoteLoop.simps) (simp add: option.map_comp comp_def)
        next
          case b: False
          then have d2: "drop (Suc i) t = []" by simp
          from b have "quoteLoop t quote (i + 1 + 1) = None"
            by (subst quoteLoop.simps) simp
          with nq True \<open>i < length t\<close> d d2 show ?thesis
            by (subst quoteLoop.simps) simp
        qed
      next
        case nb: False
        from 1(2) [OF \<open>i < length t\<close> refl nq nb]
        have ih: "quoteLoop t quote (i + 1) =
                    map_option (\<lambda>k. i + 1 + k + 1) (closingQuote quote (drop (i + 1) t))" .
        from ih nq nb \<open>i < length t\<close> d show ?thesis
          by (subst quoteLoop.simps) (simp add: option.map_comp comp_def)
      qed
    qed
  qed
qed

lemma quotedLength_le: "quotedLength text \<le> length text"
  by (auto simp: quotedLength_def split: list.splits option.splits dest: closingQuote_bound)

text \<open>
  C5. For a location within the contents, \<open>RangeOfString\<close> returns the range that
  starts at the location and whose length is that of the quoted string there: from the
  opening quote through the matching closing quote when the byte at the location is a
  double or single quote and a closing quote exists, a backslash making the scan skip
  the next byte untested; the length is 0 when the remaining text is empty, does not
  start with a quote character or has no matching quote. The length is converted to
  \<open>int32\<close>, which is exact for contents shorter than \<open>2^31\<close> bytes. The closing quote
  is a byte equal to the opening one.
\<close>

theorem C5_RangeOfString:
  assumes "0 \<le> sint (LocStart loc)" and "sint (LocStart loc) \<le> len (Contents s)"
  shows "RangeOfString s loc =
           Some \<lparr>RangeLoc = loc,
                 Len = of_nat (quotedLength (drop (nat (sint (LocStart loc))) (Contents s)))\<rparr>
         \<and> (len (Contents s) < 2 ^ 31 \<longrightarrow>
              sint (of_nat (quotedLength (drop (nat (sint (LocStart loc))) (Contents s))) :: int32)
                = int (quotedLength (drop (nat (sint (LocStart loc))) (Contents s))))
         \<and> (\<forall>q rest k. drop (nat (sint (LocStart loc))) (Contents s) = q # rest
               \<and> closingQuote q rest = Some k \<longrightarrow> k < length rest \<and> rest ! k = q)"
proof -
  let ?text = "drop (nat (sint (LocStart loc))) (Contents s)"
  have sl: "sliceFrom (Contents s) (sint (LocStart loc)) = Some ?text"
    using assms by (simp add: sliceFrom_def slice_def len_def)
  have a: "RangeOfString s loc = Some \<lparr>RangeLoc = loc, Len = of_nat (quotedLength ?text)\<rparr>"
  proof (cases ?text)
    case Nil
    then show ?thesis by (simp add: RangeOfString_def sl quotedLength_def)
  next
    case (Cons q rest)
    have "quoteLoop (q # rest) q 1 = map_option (\<lambda>k. k + 2) (closingQuote q rest)"
      by (simp add: quoteLoop_closingQuote)
    then show ?thesis
      by (auto simp: RangeOfString_def sl Cons quotedLength_def Let_def split: option.splits)
  qed
  have b: "len (Contents s) < 2 ^ 31 \<longrightarrow>
             sint (of_nat (quotedLength ?text) :: int32) = int (quotedLength ?text)"
  proof
    assume "len (Contents s) < 2 ^ 31"
    moreover have "quotedLength ?text \<le> length (Contents s)"
      using quotedLength_le [of ?text] by simp
    ultimately have "int (quotedLength ?text) < 2 ^ 31" by (simp add: len_def)
    then show "sint (of_nat (quotedLength ?text) :: int32) = int (quotedLength ?text)"
      by (simp add: signed_of_nat signed_take_bit_int_eq_self)
  qed
  from a b closingQuote_bound show ?thesis by blast
qed

theorem C5_RangeOfString_witness:
  "RangeOfString
     \<lparr>Index = 0, AbsolutePath = ''/a.js'', PrettyPath = ''a.js'',
      Contents = [CHR 0x22, CHR ''a'', CHR 0x5C, CHR 0x22, CHR ''b'', CHR 0x22]\<rparr>
     \<lparr>LocStart = 0\<rparr> = Some \<lparr>RangeLoc = \<lparr>LocStart = 0\<rparr>, Len = 6\<rparr>"
  using C5_RangeOfString [of "\<lparr>LocStart = 0\<rparr>"
    "\<lparr>Index = 0, AbsolutePath = ''/a.js'', PrettyPath = ''a.js'',
      Contents = [CHR 0x22, CHR ''a'', CHR 0x5C, CHR 0x22, CHR ''b'', CHR 0x22]\<rparr>"]
  by (simp add: len_def quotedLength_def)


section \<open>Strings as sequences of runes\<close>

lemma runeWidth_bounds: "1 \<le> runeWidth (b # t) \<and> runeWidth (b # t) \<le> length (b # t)"
  unfolding runeWidth_def by (rule decodeRune_width)

lemma ValidString_Cons:
  "ValidString (b # t) =
     (decodeRune (b # t) \<noteq> (RuneError, 1) \<and> ValidString (drop (runeWidth (b # t)) (b # t)))"
proof -
  obtain k where "runeWidth (b # t) = Suc k"
    using runeWidth_bounds [of b t] by (cases "runeWidth (b # t)") auto
  then show ?thesis by (simp add: ValidString.simps)
qed

lemma map_snd_goRangeFrom: "map snd (goRangeFrom i s) = map snd (goRangeFrom 0 s)"
proof (induction s arbitrary: i rule: length_induct)
  case (1 s)
  show ?case
  proof (cases s)
    case Nil
    then show ?thesis by simp
  next
    case (Cons b t)
    let ?rest = "drop (runeWidth (b # t)) (b # t)"
    have "length ?rest < length s" using Cons runeWidth_bounds [of b t] by simp
    with 1 have "\<And>j. map snd (goRangeFrom j ?rest) = map snd (goRangeFrom 0 ?rest)" by blast
    then have "map snd (goRangeFrom (i + runeWidth (b # t)) ?rest)
                 = map snd (goRangeFrom (0 + runeWidth (b # t)) ?rest)" by metis
    with Cons show ?thesis by (simp add: goRangeFrom.simps)
  qed
qed

lemma runesOf_Nil: "runesOf [] = []"
  by (simp add: runesOf_def goRange_def)

lemma runesOf_Cons:
  "runesOf (b # t) = fst (decodeRune (b # t)) # runesOf (drop (runeWidth (b # t)) (b # t))"
  unfolding runesOf_def goRange_def
  by (subst goRangeFrom.simps) (simp add: map_snd_goRangeFrom [of "runeWidth (b # t)"])

lemma runesOf_valid: "\<forall>r \<in> set (runesOf s). validRune r"
proof (induction s rule: length_induct)
  case (1 s)
  show ?case
  proof (cases s)
    case Nil
    then show ?thesis by (simp add: runesOf_Nil)
  next
    case (Cons b t)
    let ?rest = "drop (runeWidth (b # t)) (b # t)"
    have "length ?rest < length s" using Cons runeWidth_bounds [of b t] by simp
    with 1 have "\<forall>r \<in> set (runesOf ?rest). validRune r" by blast
    with Cons decodeRune_validRune [of "b # t"] show ?thesis
      by (simp add: runesOf_Cons)
  qed
qed

text \<open>Writing the runes of a valid string gives the string back.\<close>

lemma encode_runesOf: "ValidString s \<Longrightarrow> concat (map encodeRune (runesOf s)) = s"
proof (induction s rule: length_induct)
  case (1 s)
  show ?case
  proof (cases s)
    case Nil
    then show ?thesis by (simp add: runesOf_Nil)
  next
    case (Cons b t)
    let ?w = "runeWidth (b # t)"
    let ?rest = "drop ?w (b # t)"
    from 1(2) Cons have ok: "decodeRune (b # t) \<noteq> (RuneError, 1)" and v: "ValidString ?rest"
      by (simp_all add: ValidString_Cons)
    have "length ?rest < length s" using Cons runeWidth_bounds [of b t] by simp
    with 1(1) v have ih: "concat (map encodeRune (runesOf ?rest)) = ?rest" by blast
    from decodeRune_good [OF ok]
    have e: "encodeRune (fst (decodeRune (b # t))) = take ?w (b # t)"
      by (simp add: runeWidth_def)
    have "concat (map encodeRune (runesOf (b # t))) = take ?w (b # t) @ ?rest"
      by (simp only: runesOf_Cons list.map concat.simps e ih)
    with Cons show ?thesis by simp
  qed
qed

text \<open>Reading what was written gives the runes written.\<close>

lemma encodeRune_nonempty: "encodeRune r \<noteq> []"
  by (simp add: encodeRune_def)

lemma runesOf_encodeRune:
  assumes "validRune r"
  shows "runesOf (encodeRune r @ t) = r # runesOf t"
proof -
  obtain b u where bu: "encodeRune r = b # u"
    using encodeRune_nonempty [of r] by (cases "encodeRune r") auto
  from decodeRune_encodeRune [OF assms, of t] bu
  have d: "decodeRune (b # u @ t) = (r, length (b # u))" by simp
  then have w: "runeWidth (b # u @ t) = length (b # u)" by (simp add: runeWidth_def)
  have "runesOf (b # u @ t) = r # runesOf (drop (length (b # u)) (b # u @ t))"
    by (subst runesOf_Cons) (simp only: d w fst_conv)
  with bu show ?thesis by simp
qed

lemma runesOf_concat_encode:
  "\<forall>r \<in> set rs. validRune r \<Longrightarrow> runesOf (concat (map encodeRune rs) @ t) = rs @ runesOf t"
  by (induction rs) (simp_all add: runesOf_encodeRune)

text \<open>A byte below \<open>0x80\<close> occurs in a string exactly when the rune of that value does.\<close>

lemma byte_in_runesOf:
  assumes "byteVal c < 0x80"
  shows "c \<in> set s \<longleftrightarrow> byteVal c \<in> set (runesOf s)"
proof (induction s rule: length_induct)
  case (1 s)
  show ?case
  proof (cases s)
    case Nil
    then show ?thesis by (simp add: runesOf_Nil)
  next
    case (Cons b t)
    let ?w = "runeWidth (b # t)"
    let ?rest = "drop ?w (b # t)"
    have "length ?rest < length s" using Cons runeWidth_bounds [of b t] by simp
    with 1 have ih: "c \<in> set ?rest \<longleftrightarrow> byteVal c \<in> set (runesOf ?rest)" by blast
    have split: "set (b # t) = set (take ?w (b # t)) \<union> set ?rest"
      by (metis append_take_drop_id set_append)
    have front: "c \<in> set (take ?w (b # t)) \<longleftrightarrow> byteVal c = fst (decodeRune (b # t))"
    proof (cases rule: decodeRune_cases [of b t])
      case ascii
      then show ?thesis by (auto simp: runeWidth_def byteVal_def)
    next
      case (two b1 t')
      then have n: "decodeRune (b # t) \<noteq> (RuneError, 1)" by simp
      from decodeRune_good [OF n] two assms show ?thesis
        by (auto simp: runeWidth_def runeOfWidth_def)
    next
      case (three b1 b2 t')
      then have n: "decodeRune (b # t) \<noteq> (RuneError, 1)" by simp
      from decodeRune_good [OF n] three assms show ?thesis
        by (auto simp: runeWidth_def runeOfWidth_def split: if_splits)
    next
      case (four b1 b2 b3 t')
      then have n: "decodeRune (b # t) \<noteq> (RuneError, 1)" by simp
      from decodeRune_good [OF n] four assms show ?thesis
        by (auto simp: runeWidth_def runeOfWidth_def split: if_splits)
    next
      case invalid
      with assms show ?thesis by (auto simp: runeWidth_def RuneError_def)
    qed
    from Cons split front ih show ?thesis
      by (simp add: runesOf_Cons)
  qed
qed


lemma tab_in_runesOf: "CHR 0x09 \<in> set s \<longleftrightarrow> 0x09 \<in> set (runesOf s)"
  using byte_in_runesOf [of "CHR 0x09" s] by (simp add: byteVal_def)

text \<open>The loop on runes without a tab writes each of them.\<close>

lemma tabLoop_no_tab:
  "0x09 \<notin> set rs \<Longrightarrow>
     tabLoop n rs (acc, count) = Some (acc @ concat (map encodeRune rs), count + int (length rs))"
  by (induction rs arbitrary: acc count) (simp_all add: tabStep_def)

lemma nextTabStop_spaces: "nextTabStop col - col = 2 - col mod 2"
  unfolding nextTabStop_def by arith

lemma nextTabStop_props:
  "2 dvd nextTabStop col \<and> col < nextTabStop col \<and> nextTabStop col \<le> col + 2"
  unfolding nextTabStop_def by arith

lemma tabStep_tab:
  "tabStep 2 (acc, int col) 0x09 =
     Some (acc @ replicate (nextTabStop col - col) CHR '' '', int (nextTabStop col))"
proof -
  have m: "int col smod 2 = int (col mod 2)"
    by (cases "col = 0") (simp_all add: signed_modulo_int_def zmod_int)
  have "col mod 2 < 2" by simp
  then have n: "nat (2 - int (col mod 2)) = 2 - col mod 2" by arith
  have "col + (2 - col mod 2) = nextTabStop col"
    using nextTabStop_spaces [of col] nextTabStop_props [of col] by arith
  then have "int col + int (2 - col mod 2) = int (nextTabStop col)"
    by (metis of_nat_add)
  with m n show ?thesis
    by (simp add: tabStep_def Let_def nextTabStop_spaces)
qed

lemma encodeRune_space: "encodeRune 0x20 = '' ''"
  by (simp add: encodeRune_def char_of_def bit_0) 

lemma concat_encode_spaces: "concat (replicate k (encodeRune 0x20)) = replicate k CHR '' ''"
  by (induction k) (simp_all add: encodeRune_space)

lemma tabLoop_expandTabs:
  "tabLoop 2 rs (acc, int col) =
     Some (acc @ concat (map encodeRune (expandTabs col rs)),
           int (col + length (expandTabs col rs)))"
proof (induction rs arbitrary: acc col)
  case Nil
  then show ?case by simp
next
  case (Cons c cs)
  show ?case
  proof (cases "c = 0x09")
    case True
    have "col + (nextTabStop col - col) = nextTabStop col"
      using nextTabStop_props [of col] by arith
    then have l: "nextTabStop col + length (expandTabs (nextTabStop col) cs)
                    = col + (nextTabStop col - col + length (expandTabs (nextTabStop col) cs))"
      by arith
    have e: "expandTabs col (c # cs) =
               replicate (nextTabStop col - col) 0x20 @ expandTabs (nextTabStop col) cs"
      using True by simp
    have t: "tabLoop 2 (c # cs) (acc, int col) =
               tabLoop 2 cs (acc @ replicate (nextTabStop col - col) CHR '' '',
                             int (nextTabStop col))"
      using True by (simp add: tabStep_tab)
    show ?thesis
      unfolding e t Cons.IH by (simp add: concat_encode_spaces l)
  next
    case False
    have e: "expandTabs col (c # cs) = c # expandTabs (col + 1) cs"
      using False by simp
    have t: "tabLoop 2 (c # cs) (acc, int col) = tabLoop 2 cs (acc @ encodeRune c, int (col + 1))"
      using False by (simp add: tabStep_def add.commute)
    show ?thesis
      unfolding e t Cons.IH by simp
  qed
qed

lemma expandTabs_no_tab: "0x09 \<notin> set rs \<Longrightarrow> expandTabs col rs = rs"
  by (induction rs arbitrary: col) simp_all

lemma expandTabs_valid:
  "\<forall>r \<in> set rs. validRune r \<Longrightarrow> \<forall>r \<in> set (expandTabs col rs). validRune r"
  by (induction rs arbitrary: col) (auto simp: validRune_def)

lemma expandLoop_2:
  "expandLoop s 2 = Some (concat (map encodeRune (expandTabs 0 (runesOf s))))"
  using tabLoop_expandTabs [of "runesOf s" "[]" 0]
  by (simp add: expandLoop_def runesOf_def)

lemma expandLoop_no_tab:
  "CHR 0x09 \<notin> set s \<Longrightarrow> expandLoop s n = Some (concat (map encodeRune (runesOf s)))"
  using tabLoop_no_tab [of "runesOf s" n "[]" 0]
  by (simp add: expandLoop_def tab_in_runesOf runesOf_def)

lemma runesOf_reencode: "runesOf (concat (map encodeRune (runesOf s))) = runesOf s"
  using runesOf_concat_encode [OF runesOf_valid, of s "[]"] by (simp add: runesOf_Nil)

text \<open>
  C10. The claim: \<open>renderTabStops\<close> returns its input unchanged when the input has no
  tab, and this equals the result of the general loop on the same input, for all inputs
  and every \<open>spacesPerTab \<ge> 1\<close>. The first part holds. The second fails on bytes that
  are not valid UTF-8: the loop reads each such byte as \<open>U+FFFD\<close> and writes the three
  bytes of its encoding, while the early return keeps the byte. What holds: for every
  \<open>spacesPerTab\<close>, the early return and the loop agree on every valid UTF-8 input, and
  on every input they agree as sequences of runes.
\<close>

theorem C10_fast_path:
  "(CHR 0x09 \<notin> set s \<longrightarrow> renderTabStops s n = Some s)
   \<and> (ValidString s \<longrightarrow> renderTabStops s n = expandLoop s n)
   \<and> map_option runesOf (renderTabStops s n) = map_option runesOf (expandLoop s n)"
proof (cases "CHR 0x09 \<in> set s")
  case True
  then show ?thesis by (simp add: renderTabStops_def)
next
  case False
  then have f: "renderTabStops s n = Some s" by (simp add: renderTabStops_def)
  from False have l: "expandLoop s n = Some (concat (map encodeRune (runesOf s)))"
    by (rule expandLoop_no_tab)
  from f l False show ?thesis
    by (simp add: encode_runesOf runesOf_reencode)
qed

theorem C10_fast_path_witness:
  "CHR 0x09 \<notin> set ''ab'' \<and> ValidString ''ab''
   \<and> renderTabStops ''ab'' 2 = Some ''ab'' \<and> expandLoop ''ab'' 2 = Some ''ab''"
proof -
  have v: "ValidString ''ab''"
    by (simp add: ValidString.simps decodeRune_ascii runeWidth_def byteVal_def RuneError_def)
  have t: "CHR 0x09 \<notin> set ''ab''" by simp
  from C10_fast_path [of "''ab''" 2] t v
  have a: "renderTabStops ''ab'' 2 = Some ''ab''"
    and b: "renderTabStops ''ab'' 2 = expandLoop ''ab'' 2" by blast+
  from a b have "expandLoop ''ab'' 2 = Some ''ab''" by (simp only:)
  with a t v show ?thesis by blast
qed

theorem C10_invalid_byte_counterexample:
  "CHR 0x09 \<notin> set [CHR 0xFF] \<and> (1::int) \<ge> 1
   \<and> renderTabStops [CHR 0xFF] 1 = Some [CHR 0xFF]
   \<and> expandLoop [CHR 0xFF] 1 = Some [CHR 0xEF, CHR 0xBF, CHR 0xBD]
   \<and> renderTabStops [CHR 0xFF] 1 \<noteq> expandLoop [CHR 0xFF] 1"
proof -
  have d: "decodeRune [CHR 0xFF] = (RuneError, 1)"
    by (simp add: decodeRune.simps byteVal_def)
  have g: "goRange [CHR 0xFF] = [(0, RuneError)]"
    by (simp add: goRange_def goRangeFrom.simps d runeWidth_def)
  have e: "encodeRune 65533 = [CHR 0xEF, CHR 0xBF, CHR 0xBD]"
    by (simp add: encodeRune_def char_of_def bit_0 bit_Suc)
  have l: "expandLoop [CHR 0xFF] 1 = Some [CHR 0xEF, CHR 0xBF, CHR 0xBD]"
    by (simp add: expandLoop_def g tabStep_def e RuneError_def)
  have f: "renderTabStops [CHR 0xFF] 1 = Some [CHR 0xFF]"
    by (simp add: renderTabStops_def)
  from l f show ?thesis by simp
qed



section \<open>Tab expansion and the indent\<close>

text \<open>What a returned detail was computed from, step by step.\<close>

lemma detailStruct_SomeE:
  assumes "detailStruct msg ti = Some d" and "Msg.Source msg = Some src"
  obtains scanned fromLineStart line lineText linePrefix indentText indent markerEnd trimmed
    marker sourceBefore sourceMarked sourceAfter
  where
    "slice (Contents src) 0 (sint (Start msg)) = Some scanned"
    "sliceFrom (Contents src) (snd (snd (ComputeLineAndColumn scanned))) = Some fromLineStart"
    "slice (Contents src) (snd (snd (ComputeLineAndColumn scanned)))
       (lineEndLoop (goRange fromLineStart) (snd (snd (ComputeLineAndColumn scanned)))
          (len (Contents src))) = Some line"
    "renderTabStops line 2 = Some lineText"
    "slice (Contents src) (snd (snd (ComputeLineAndColumn scanned))) (sint (Start msg))
       = Some linePrefix"
    "renderTabStops linePrefix 2 = Some indentText"
    "Repeat CHR '' '' (len indentText) = Some indent"
    "(if 0 < Width ti \<and> Width ti < len lineText
      then trimLine (Width ti) lineText (fst (clipMarker lineText (len indent) markerEnd))
             (snd (clipMarker lineText (len indent) markerEnd))
      else Some (lineText, fst (clipMarker lineText (len indent) markerEnd),
                 snd (clipMarker lineText (len indent) markerEnd), indent)) = Some trimmed"
    "(if 1 < fst (snd (snd trimmed)) - fst (snd trimmed)
      then Repeat CHR ''~'' (fst (snd (snd trimmed)) - fst (snd trimmed))
      else Some ''^'') = Some marker"
    "sliceTo (fst trimmed) (fst (snd trimmed)) = Some sourceBefore"
    "slice (fst trimmed) (fst (snd trimmed)) (fst (snd (snd trimmed))) = Some sourceMarked"
    "sliceFrom (fst trimmed) (fst (snd (snd trimmed))) = Some sourceAfter"
    "Some \<lparr>Path = PrettyPath src, Line = fst (ComputeLineAndColumn scanned) + 1,
           Column = fst (snd (ComputeLineAndColumn scanned)),
           Kind = kindString (Msg.Kind msg), Message = Text msg,
           Source = fst trimmed, SourceBefore = sourceBefore, SourceMarked = sourceMarked,
           SourceAfter = sourceAfter, Indent = snd (snd (snd trimmed)), Marker = marker\<rparr>
       = Some d"
  using assms unfolding detailStruct_def
  apply (simp only: option.case Let_def bind_eq_Some_conv case_prod_beta)
  apply (elim exE conjE)
  apply (erule (12) that)
  done



lemma renderTabStops_2:
  "\<exists>t. renderTabStops s 2 = Some t
       \<and> runesOf t = expandTabs 0 (runesOf s)
       \<and> (ValidString s \<longrightarrow> t = concat (map encodeRune (expandTabs 0 (runesOf s))))"
proof (cases "CHR 0x09 \<in> set s")
  case True
  let ?t = "concat (map encodeRune (expandTabs 0 (runesOf s)))"
  have r: "renderTabStops s 2 = Some ?t"
    using True by (simp add: renderTabStops_def expandLoop_2)
  have "\<forall>r \<in> set (expandTabs 0 (runesOf s)). validRune r"
    by (rule expandTabs_valid [OF runesOf_valid])
  from runesOf_concat_encode [OF this, of "[]"]
  have "runesOf ?t = expandTabs 0 (runesOf s)" by (simp add: runesOf_Nil)
  with r show ?thesis by simp
next
  case False
  then have r: "renderTabStops s 2 = Some s" by (simp add: renderTabStops_def)
  from False have n: "0x09 \<notin> set (runesOf s)" by (simp add: tab_in_runesOf)
  then have e: "expandTabs 0 (runesOf s) = runesOf s" by (rule expandTabs_no_tab)
  from r e show ?thesis by (simp add: encode_runesOf)
qed
























lemma substring_len: "len s \<le> n \<Longrightarrow> substring s 0 n = s"
  by (simp add: substring_def len_def)









section \<open>Colour\<close>

lemma hasEscape_append [simp]: "hasEscape (a @ b) \<longleftrightarrow> hasEscape a \<or> hasEscape b"
  by (auto simp: hasEscape_def)

lemma hasEscape_Nil [simp]: "\<not> hasEscape []"
  by (simp add: hasEscape_def)

lemma hasEscape_Cons [simp]: "hasEscape (c # s) \<longleftrightarrow> c = CHR 0x1B \<or> hasEscape s"
  by (auto simp: hasEscape_def)

lemma digit_not_escape: "d < 10 \<Longrightarrow> digit d \<noteq> CHR 0x1B"
proof
  assume d: "d < 10" and e: "digit d = CHR 0x1B"
  from d have "byteVal (digit d) = 48 + d" by (simp add: digit_def byteVal_char_of)
  moreover have "byteVal (CHR 0x1B) = 27" by (simp add: byteVal_def)
  ultimately show False using e by simp
qed

lemma showNat_no_escape: "\<not> hasEscape (showNat n)"
proof (induction n rule: showNat.induct)
  case (1 n)
  show ?case
  proof (cases "n < 10")
    case True
    then show ?thesis by (subst showNat.simps) (simp add: digit_not_escape)
  next
    case False
    with 1 have "\<not> hasEscape (showNat (n div 10))" by simp
    moreover have "digit (n mod 10) \<noteq> CHR 0x1B" by (rule digit_not_escape) simp
    ultimately show ?thesis using False by (subst showNat.simps) simp
  qed
qed

lemma showInt_no_escape: "\<not> hasEscape (showInt i)"
  by (simp add: showInt_def showNat_no_escape)

lemma slice_no_escape: "slice s lo hi = Some t \<Longrightarrow> \<not> hasEscape s \<Longrightarrow> \<not> hasEscape t"
  by (auto simp: slice_def hasEscape_def split: if_splits dest: in_set_takeD in_set_dropD)

lemma expandTabs_member:
  "c \<noteq> 0x09 \<Longrightarrow> c \<noteq> 0x20 \<Longrightarrow> c \<in> set (expandTabs col rs) \<longleftrightarrow> c \<in> set rs"
  by (induction rs arbitrary: col) auto

lemma renderTabStops_no_escape:
  assumes "renderTabStops s 2 = Some t" and "\<not> hasEscape s"
  shows "\<not> hasEscape t"
proof -
  have b: "byteVal (CHR 0x1B) = 27" by (simp add: byteVal_def)
  from renderTabStops_2 [of s] assms(1) have r: "runesOf t = expandTabs 0 (runesOf s)" by auto
  have "CHR 0x1B \<in> set t \<longleftrightarrow> 27 \<in> set (runesOf t)"
    using byte_in_runesOf [of "CHR 0x1B" t] b by simp
  also have "\<dots> \<longleftrightarrow> 27 \<in> set (runesOf s)"
    unfolding r by (rule expandTabs_member) simp_all
  also have "\<dots> \<longleftrightarrow> CHR 0x1B \<in> set s"
    using byte_in_runesOf [of "CHR 0x1B" s] b by simp
  finally show ?thesis using assms(2) by (simp add: hasEscape_def)
qed

lemma Repeat_no_escape: "Repeat c n = Some t \<Longrightarrow> c \<noteq> CHR 0x1B \<Longrightarrow> \<not> hasEscape t"
  by (auto simp: Repeat_def hasEscape_def split: if_splits)

lemma left_dots_no_escape:
  "(if c then sliceFrom y 3 \<bind> (\<lambda>rest. Some (''...'' @ rest, f)) else Some (y, g)) = Some ya
     \<Longrightarrow> \<not> hasEscape y \<Longrightarrow> \<not> hasEscape (fst ya)"
  by (auto simp: bind_eq_Some_conv sliceFrom_def split: if_splits dest: slice_no_escape)

lemma right_dots_no_escape:
  "(if c then sliceTo x n \<bind> (\<lambda>front. Some (front @ ''...'', f front)) else Some (x, g))
       = Some yb
     \<Longrightarrow> \<not> hasEscape x \<Longrightarrow> \<not> hasEscape (fst yb)"
  by (auto simp: bind_eq_Some_conv sliceTo_def split: if_splits dest: slice_no_escape)

lemma space_not_escape: "CHR '' '' \<noteq> CHR 0x1B"
  by simp

lemma trimLine_no_escape:
  assumes "trimLine width lineText markerStart markerEnd = Some trimmed"
    and "\<not> hasEscape lineText"
  shows "\<not> hasEscape (fst trimmed) \<and> \<not> hasEscape (snd (snd (snd trimmed)))"
  using assms unfolding trimLine_def Let_def
  apply (simp only: bind_eq_Some_conv case_prod_beta)
  apply (elim exE conjE)
  apply (drule (1) slice_no_escape)
  apply (drule (1) left_dots_no_escape)
  apply (drule (1) right_dots_no_escape)
  apply (drule Repeat_no_escape [OF _ space_not_escape])
  apply auto
  done

text \<open>Nothing in a detail has an escape character unless the message brings it.\<close>

lemma detailStruct_no_escape:
  assumes d: "detailStruct msg ti = Some d" and src: "Msg.Source msg = Some src"
    and c: "\<not> hasEscape (Contents src)"
  shows "\<not> hasEscape (MsgDetail.Source d) \<and> \<not> hasEscape (Indent d) \<and> \<not> hasEscape (Marker d)
         \<and> Path d = PrettyPath src \<and> Message d = Text msg
         \<and> MsgDetail.Kind d = kindString (Msg.Kind msg)"
proof -
  from d src obtain scanned fromLineStart line lineText linePrefix indentText indent markerEnd
    trimmed marker sourceBefore sourceMarked sourceAfter
  where ln: "slice (Contents src) (snd (snd (ComputeLineAndColumn scanned)))
       (lineEndLoop (goRange fromLineStart) (snd (snd (ComputeLineAndColumn scanned)))
          (len (Contents src))) = Some line"
    and lt: "renderTabStops line 2 = Some lineText"
    and ind: "Repeat CHR '' '' (len indentText) = Some indent"
    and tr: "(if 0 < Width ti \<and> Width ti < len lineText
      then trimLine (Width ti) lineText (fst (clipMarker lineText (len indent) markerEnd))
             (snd (clipMarker lineText (len indent) markerEnd))
      else Some (lineText, fst (clipMarker lineText (len indent) markerEnd),
                 snd (clipMarker lineText (len indent) markerEnd), indent)) = Some trimmed"
    and mk: "(if 1 < fst (snd (snd trimmed)) - fst (snd trimmed)
      then Repeat CHR ''~'' (fst (snd (snd trimmed)) - fst (snd trimmed))
      else Some ''^'') = Some marker"
    and rec: "Some \<lparr>Path = PrettyPath src, Line = fst (ComputeLineAndColumn scanned) + 1,
           Column = fst (snd (ComputeLineAndColumn scanned)),
           Kind = kindString (Msg.Kind msg), Message = Text msg,
           Source = fst trimmed, SourceBefore = sourceBefore, SourceMarked = sourceMarked,
           SourceAfter = sourceAfter, Indent = snd (snd (snd trimmed)), Marker = marker\<rparr>
       = Some d"
    by (rule detailStruct_SomeE)
  from ln c have "\<not> hasEscape line" by (rule slice_no_escape)
  with lt have l: "\<not> hasEscape lineText" by (rule renderTabStops_no_escape)
  from ind have i: "\<not> hasEscape indent" by (rule Repeat_no_escape) simp
  have t: "\<not> hasEscape (fst trimmed) \<and> \<not> hasEscape (snd (snd (snd trimmed)))"
  proof (cases "0 < Width ti \<and> Width ti < len lineText")
    case True
    with tr have "trimLine (Width ti) lineText (fst (clipMarker lineText (len indent) markerEnd))
             (snd (clipMarker lineText (len indent) markerEnd)) = Some trimmed" by simp
    from trimLine_no_escape [OF this l] show ?thesis .
  next
    case False
    with tr l i show ?thesis by auto
  qed
  have m: "\<not> hasEscape marker"
  proof (cases "1 < fst (snd (snd trimmed)) - fst (snd trimmed)")
    case True
    with mk have "Repeat CHR ''~'' (fst (snd (snd trimmed)) - fst (snd trimmed)) = Some marker"
      by simp
    then show ?thesis by (rule Repeat_no_escape) simp
  next
    case False
    with mk show ?thesis by auto
  qed
  from rec have "d = \<lparr>Path = PrettyPath src, Line = fst (ComputeLineAndColumn scanned) + 1,
           Column = fst (snd (ComputeLineAndColumn scanned)),
           Kind = kindString (Msg.Kind msg), Message = Text msg,
           Source = fst trimmed, SourceBefore = sourceBefore, SourceMarked = sourceMarked,
           SourceAfter = sourceAfter, Indent = snd (snd (snd trimmed)), Marker = marker\<rparr>"
    by simp
  with t m show ?thesis by simp
qed

lemma kindString_no_escape: "\<not> hasEscape (kindString k)"
  by (simp add: kindString_def)

lemma colorBold_escape: "hasEscape (colorBold @ t)"
  by (simp add: colorBold_def)

text \<open>A rendered message has an escape character exactly when colour is on.\<close>

lemma MsgString_escape:
  assumes out: "MsgString msg options ti = Some out"
    and notxt: "\<not> hasEscape (Text msg)"
    and srcs: "\<forall>src. Msg.Source msg = Some src \<longrightarrow>
                 \<not> hasEscape (PrettyPath src) \<and> \<not> hasEscape (Contents src)"
  shows "hasEscape out \<longleftrightarrow> UseColorEscapes ti"
proof (cases "Msg.Source msg")
  case None
  with out notxt show ?thesis
    by (auto simp: MsgString_def Let_def colorBold_def kindString_no_escape split: if_splits)
next
  case (Some src)
  with srcs have p: "\<not> hasEscape (PrettyPath src)" and c: "\<not> hasEscape (Contents src)" by auto
  show ?thesis
  proof (cases "IncludeSource options")
    case False
    with out notxt Some p show ?thesis
      by (auto simp: MsgString_def Let_def colorBold_def kindString_no_escape split: if_splits)
  next
    case True
    with out Some obtain d where d: "detailStruct msg ti = Some d"
      by (auto simp: MsgString_def Let_def bind_eq_Some_conv)
    note f = detailStruct_no_escape [OF d Some c]
    show ?thesis
    proof (cases "UseColorEscapes ti")
      case col: True
      with out Some True d have "\<exists>t. out = colorBold @ t"
        by (auto simp: MsgString_def Let_def)
      with col show ?thesis by (auto simp: colorBold_def)
    next
      case nocol: False
      with out Some True d have
        "out = Path d @ '':'' @ showInt (Line d) @ '':'' @ showInt (Column d)
                 @ '': '' @ MsgDetail.Kind d @ '': '' @ Message d @ [CHR 0x0A]
                 @ MsgDetail.Source d @ [CHR 0x0A] @ Indent d @ Marker d @ [CHR 0x0A]"
        by (simp add: MsgString_def Let_def)
      with nocol f p notxt show ?thesis
        by (simp add: showInt_no_escape kindString_no_escape)
    qed
  qed
qed


text \<open>
  C4. The claim: colour escape sequences appear in rendered output if and only if the
  terminal descriptor reports colour support and the colour mode is not \<open>ColorNever\<close>,
  with \<open>ColorAlways\<close> enabling colour even when the descriptor reports no support. The
  code sets the flag to the constant \<open>SupportsColorEscapes\<close> in mode \<open>ColorAlways\<close>: with
  the constant false no colour appears whatever the descriptor says, and with the
  constant true colour appears although the descriptor reports none. What holds: the
  flag the sink renders with is set exactly when the mode is \<open>ColorIfTerminal\<close> and the
  descriptor reports support, or the mode is \<open>ColorAlways\<close> and the constant is true;
  and the rendering of a message whose text, path and contents have no escape character
  contains one exactly when the flag is set.
\<close>

theorem C4_color_escapes:
  "(UseColorEscapes (applyColor supports options stderrInfo) \<longleftrightarrow>
      (Color options = ColorIfTerminal \<and> UseColorEscapes stderrInfo)
      \<or> (Color options = ColorAlways \<and> supports))
   \<and> (MsgString msg options (applyColor supports options stderrInfo) = Some out
        \<and> \<not> hasEscape (Text msg)
        \<and> (\<forall>src. Msg.Source msg = Some src \<longrightarrow>
               \<not> hasEscape (PrettyPath src) \<and> \<not> hasEscape (Contents src))
       \<longrightarrow> (hasEscape out \<longleftrightarrow>
              (Color options = ColorIfTerminal \<and> UseColorEscapes stderrInfo)
              \<or> (Color options = ColorAlways \<and> supports)))"
proof -
  have a: "UseColorEscapes (applyColor supports options stderrInfo) \<longleftrightarrow>
      (Color options = ColorIfTerminal \<and> UseColorEscapes stderrInfo)
      \<or> (Color options = ColorAlways \<and> supports)"
    by (cases "Color options") (simp_all add: applyColor_def)
  have "MsgString msg options (applyColor supports options stderrInfo) = Some out
        \<and> \<not> hasEscape (Text msg)
        \<and> (\<forall>src. Msg.Source msg = Some src \<longrightarrow>
               \<not> hasEscape (PrettyPath src) \<and> \<not> hasEscape (Contents src))
       \<longrightarrow> (hasEscape out \<longleftrightarrow> UseColorEscapes (applyColor supports options stderrInfo))"
    using MsgString_escape [of msg options "applyColor supports options stderrInfo" out]
    by blast
  with a show ?thesis by blast
qed

theorem C4_color_escapes_witness:
  "MsgString (AddError None \<lparr>LocStart = 0\<rparr> ''e'')
      \<lparr>IncludeSource = False, ErrorLimit = 0, Color = ColorAlways, LogLevel = LevelInfo\<rparr>
      (applyColor True
         \<lparr>IncludeSource = False, ErrorLimit = 0, Color = ColorAlways, LogLevel = LevelInfo\<rparr>
         \<lparr>IsTTY = False, UseColorEscapes = False, Width = 0\<rparr>)
     = Some (colorBold @ colorRed @ ''error: '' @ colorResetBold @ ''e'' @ colorReset
               @ [CHR 0x0A])
   \<and> hasEscape (colorBold @ colorRed @ ''error: '' @ colorResetBold @ ''e'' @ colorReset
                  @ [CHR 0x0A])"
proof -
  let ?options =
    "\<lparr>IncludeSource = False, ErrorLimit = 0, Color = ColorAlways, LogLevel = LevelInfo\<rparr>"
  let ?info = "\<lparr>IsTTY = False, UseColorEscapes = False, Width = 0\<rparr>"
  let ?msg = "AddError None \<lparr>LocStart = 0\<rparr> ''e''"
  let ?out = "colorBold @ colorRed @ ''error: '' @ colorResetBold @ ''e'' @ colorReset
                @ [CHR 0x0A]"
  have r: "MsgString ?msg ?options (applyColor True ?options ?info) = Some ?out"
    by (simp add: MsgString_def applyColor_def AddError_def kindString_def kindColorOf_def)
  have t: "\<not> hasEscape (Text ?msg)" by (simp add: AddError_def)
  have n: "\<forall>src. Msg.Source ?msg = Some src \<longrightarrow>
             \<not> hasEscape (PrettyPath src) \<and> \<not> hasEscape (Contents src)"
    by (simp add: AddError_def)
  from C4_color_escapes [of True ?options ?info ?msg ?out] r t n
  have "hasEscape ?out" by simp
  with r show ?thesis by simp
qed

theorem C4_color_counterexample:
  "MsgString (AddError None \<lparr>LocStart = 0\<rparr> ''e'')
      \<lparr>IncludeSource = False, ErrorLimit = 0, Color = ColorAlways, LogLevel = LevelInfo\<rparr>
      (applyColor False
         \<lparr>IncludeSource = False, ErrorLimit = 0, Color = ColorAlways, LogLevel = LevelInfo\<rparr>
         \<lparr>IsTTY = True, UseColorEscapes = True, Width = 80\<rparr>)
     = Some (''error: e'' @ [CHR 0x0A])
   \<and> \<not> hasEscape (''error: e'' @ [CHR 0x0A])
   \<and> MsgString (AddError None \<lparr>LocStart = 0\<rparr> ''e'')
      \<lparr>IncludeSource = False, ErrorLimit = 0, Color = ColorAlways, LogLevel = LevelInfo\<rparr>
      (applyColor True
         \<lparr>IncludeSource = False, ErrorLimit = 0, Color = ColorAlways, LogLevel = LevelInfo\<rparr>
         \<lparr>IsTTY = False, UseColorEscapes = False, Width = 0\<rparr>)
     = Some (colorBold @ colorRed @ ''error: '' @ colorResetBold @ ''e'' @ colorReset
               @ [CHR 0x0A])
   \<and> hasEscape (colorBold @ colorRed @ ''error: '' @ colorResetBold @ ''e'' @ colorReset
                  @ [CHR 0x0A])"
  by (simp add: MsgString_def applyColor_def AddError_def kindString_def kindColorOf_def
        colorBold_def)

end
